theory Spec2Isabelle
  imports Main "HOL-Library.Word" "HOL-Library.Signed_Division" "HOL-Library.Char_ord"
    "HOL-Library.List_Lexorder" "HOL-Library.AList"
begin

unbundle bit_operations_syntax

section \<open>Bytes, fixed-width integers and their encodings\<close>

type_synonym byte = "8 word"
type_synonym uint32 = "32 word"
type_synonym uint64 = "64 word"

text \<open>
  \<open>binary.LittleEndian.PutUint32\<close> / \<open>PutUint64\<close>: byte \<open>k\<close> of the output is
  \<open>byte(v >> (8 * k))\<close>.  \<open>Uint32\<close> / \<open>Uint64\<close> put the bytes back together.
\<close>

definition le32 :: "uint32 \<Rightarrow> byte list" where
  "le32 v = [ucast v, ucast (drop_bit 8 v), ucast (drop_bit 16 v), ucast (drop_bit 24 v)]"

definition le64 :: "uint64 \<Rightarrow> byte list" where
  "le64 v = [ucast v, ucast (drop_bit 8 v), ucast (drop_bit 16 v), ucast (drop_bit 24 v),
             ucast (drop_bit 32 v), ucast (drop_bit 40 v), ucast (drop_bit 48 v),
             ucast (drop_bit 56 v)]"

definition le32_dec :: "byte list \<Rightarrow> uint32" where
  "le32_dec bs = foldr (\<lambda>b acc. ucast b OR push_bit 8 acc) bs 0"

definition le64_dec :: "byte list \<Rightarrow> uint64" where
  "le64_dec bs = foldr (\<lambda>b acc. ucast b OR push_bit 8 acc) bs 0"

text \<open>Big-endian layout, as \<open>time.Time.MarshalBinary\<close> writes seconds and nanoseconds.\<close>

definition be16 :: "16 word \<Rightarrow> byte list" where
  "be16 v = rev [ucast v, ucast (drop_bit 8 v)]"

definition be32 :: "uint32 \<Rightarrow> byte list" where
  "be32 v = rev (le32 v)"

definition be64 :: "uint64 \<Rightarrow> byte list" where
  "be64 v = rev (le64 v)"

definition be16_dec :: "byte list \<Rightarrow> 16 word" where
  "be16_dec bs = foldr (\<lambda>b acc. ucast b OR push_bit 8 acc) (rev bs) 0"

definition be32_dec :: "byte list \<Rightarrow> uint32" where
  "be32_dec bs = le32_dec (rev bs)"

definition be64_dec :: "byte list \<Rightarrow> uint64" where
  "be64_dec bs = le64_dec (rev bs)"

section \<open>CRC-32C\<close>

text \<open>
  \<open>crc32.MakeTable(crc32.Castagnoli)\<close> and \<open>crc32.Checksum\<close> of the Go library, in their
  portable form: the table entry of \<open>i\<close> is \<open>i\<close> pushed through eight rounds of the
  reflected polynomial \<open>0x82f63b78\<close>; the checksum starts from \<open>NOT 0\<close>, folds each
  byte through the table, and is complemented at the end.
\<close>

definition Castagnoli :: uint32 where
  "Castagnoli = 0x82f63b78"

primrec crc_rounds :: "nat \<Rightarrow> uint32 \<Rightarrow> uint32" where
  "crc_rounds 0 c = c"
| "crc_rounds (Suc n) c =
     crc_rounds n (if c AND 1 = 1 then drop_bit 1 c XOR Castagnoli else drop_bit 1 c)"

definition table :: "byte \<Rightarrow> uint32" where
  "table i = crc_rounds 8 (ucast i)"

definition crc_update :: "uint32 \<Rightarrow> byte list \<Rightarrow> uint32" where
  "crc_update crc p = NOT (foldl (\<lambda>c v. table (ucast c XOR v) XOR drop_bit 8 c) (NOT crc) p)"

definition Checksum :: "byte list \<Rightarrow> uint32" where
  "Checksum p = crc_update 0 p"

section \<open>Errors\<close>

text \<open>
  The error values of the package (\<open>Err...\<close>), those of the Go library that its control
  flow inspects or can meet (\<open>io.EOF\<close>, \<open>io.ErrUnexpectedEOF\<close>, \<open>os.ErrExist\<close>, ...), and the
  two run-time panics the code can reach.  A Go \<open>error\<close> result is an \<open>error option\<close>
  (\<open>None\<close> is \<open>nil\<close>); a \<open>(value, error)\<close> result is \<open>error + value\<close>.
\<close>

datatype error =
    EOF
  | ErrUnexpectedEOF
  | ErrCrc32Mismatch
  | ErrNoPreviousEntry
  | ErrNoSegmentsFound
  | ErrFileAlreadyOpen
  | ErrNotADirectory
  | ErrConfigNotFound
  | ErrParseConfig
  | ErrIndexAndTimestampSet
  | ErrExist
  | ErrNotExist
  | ErrInvalid
  | ErrIsDirectory
  | ErrTimeUnmarshal
  | ErrTimeMarshal
  | ErrScan
  | ErrBadPattern
  | PanicIndexOutOfRange
  | PanicNilDereference

section \<open>Time values\<close>

text \<open>
  \<open>time.Time\<close> belongs to the Go library.  The model keeps what the package observes of it:
  the instant (seconds since year 1 as an \<open>int64\<close>, nanoseconds as an \<open>int32\<close>) and the
  location, which is either UTC or a zone given by its offset in seconds (the local zone is
  such a zone).  The monotonic clock reading is not modelled.  A \<open>time.Time\<close> has a
  nanosecond field below \<open>10^9\<close>; decoding keeps a stored nanosecond field as it is, also one
  of \<open>2^30\<close> or more, which no marshalled \<open>time.Time\<close> has and which the library would fold
  into 30 bits.
\<close>

datatype Location = UTC | FixedZone int

record Time =
  t_sec :: uint64
  t_nsec :: uint32
  t_loc :: Location

definition zeroTime :: Time where
  "zeroTime = \<lparr>t_sec = 0, t_nsec = 0, t_loc = UTC\<rparr>"

definition IsZero :: "Time \<Rightarrow> bool" where
  "IsZero t \<longleftrightarrow> t_sec t = 0 \<and> t_nsec t = 0"

definition After :: "Time \<Rightarrow> Time \<Rightarrow> bool" where
  "After t u \<longleftrightarrow> sint (t_sec t) > sint (t_sec u)
     \<or> (t_sec t = t_sec u \<and> sint (t_nsec t) > sint (t_nsec u))"

definition Before :: "Time \<Rightarrow> Time \<Rightarrow> bool" where
  "Before t u \<longleftrightarrow> sint (t_sec t) < sint (t_sec u)
     \<or> (t_sec t = t_sec u \<and> sint (t_nsec t) < sint (t_nsec u))"

definition Equal :: "Time \<Rightarrow> Time \<Rightarrow> bool" where
  "Equal t u \<longleftrightarrow> t_sec t = t_sec u \<and> t_nsec t = t_nsec u"

definition In_UTC :: "Time \<Rightarrow> Time" where
  "In_UTC t = t\<lparr>t_loc := UTC\<rparr>"

text \<open>
  \<open>MarshalBinary\<close>: a version byte, the seconds and nanoseconds big-endian, the zone offset in
  minutes (\<open>-1\<close> for UTC), and in version 2 one more byte for the seconds of the offset.
\<close>

definition MarshalBinary :: "Time \<Rightarrow> error + byte list" where
  "MarshalBinary t =
     (case t_loc t of
        UTC \<Rightarrow> Inr ([1] @ be64 (t_sec t) @ be32 (t_nsec t) @ be16 (- 1))
      | FixedZone offset \<Rightarrow>
          (let version = (if offset smod 60 \<noteq> 0 then 2 else 1 :: byte);
               offsetMin = offset sdiv 60
           in if offsetMin < - 32768 \<or> offsetMin = - 1 \<or> offsetMin > 32767
              then Inl ErrTimeMarshal
              else Inr ([version] @ be64 (t_sec t) @ be32 (t_nsec t) @ be16 (of_int offsetMin)
                        @ (if version = 2 then [of_int (offset smod 60)] else []))))"

definition UnmarshalBinary :: "byte list \<Rightarrow> error + Time" where
  "UnmarshalBinary data =
     (case data of
        [] \<Rightarrow> Inl ErrTimeUnmarshal
      | version # buf \<Rightarrow>
          if version \<noteq> 1 \<and> version \<noteq> 2 then Inl ErrTimeUnmarshal
          else if length data \<noteq> (if version = 2 then 16 else 15) then Inl ErrTimeUnmarshal
          else
            (let sec = be64_dec (take 8 buf);
                 nsec = be32_dec (take 4 (drop 8 buf));
                 offset = sint (be16_dec (take 2 (drop 12 buf))) * 60
                          + (if version = 2 then uint (buf ! 14) else 0)
             in Inr \<lparr>t_sec = sec, t_nsec = nsec,
                      t_loc = (if offset = - 60 then UTC else FixedZone offset)\<rparr>))"

section \<open>Entries and their codec (entry.go)\<close>

record Entry =
  Index :: uint64
  Length :: uint32
  Data :: "byte list"
  Timestamp :: Time
  Crc32 :: uint32

text \<open>\<open>newMessage\<close>; the reading of the clock, \<open>time.Now()\<close>, is the argument \<open>now\<close>.\<close>

definition newMessage :: "uint64 \<Rightarrow> byte list \<Rightarrow> Time \<Rightarrow> Entry" where
  "newMessage index data now =
     \<lparr>Index = index, Length = of_nat (length data), Data = data, Timestamp = now,
      Crc32 = Checksum data\<rparr>"

definition ConstEntrySize :: nat where
  "ConstEntrySize = 35"

definition size_of :: "Entry \<Rightarrow> uint64" where
  "size_of m = of_nat ConstEntrySize + of_nat (length (Data m))"

text \<open>
  \<open>writeEntry\<close> assembles the record in a buffer and hands it to the writer in one call.
  The writer is any \<open>io.Writer\<close>: a state \<open>'w\<close> with its \<open>Write\<close> method.  A nil entry
  writes nothing.
\<close>

definition entry_buffer :: "Entry \<Rightarrow> error + byte list" where
  "entry_buffer m =
     (case MarshalBinary (In_UTC (Timestamp m)) of
        Inl e \<Rightarrow> Inl e
      | Inr tbin \<Rightarrow>
          Inr (le64 (Index m) @ le32 (Length m) @ Data m @ tbin @ le32 (Crc32 m)
               @ le32 (Length m)))"

definition writeEntry ::
  "('w \<Rightarrow> byte list \<Rightarrow> error option \<times> 'w) \<Rightarrow> 'w \<Rightarrow> Entry option \<Rightarrow> error option \<times> 'w" where
  "writeEntry Write writer m =
     (case m of
        None \<Rightarrow> (None, writer)
      | Some m' \<Rightarrow>
          (case entry_buffer m' of
             Inl e \<Rightarrow> (Some e, writer)
           | Inr buffer \<Rightarrow> Write writer buffer))"

text \<open>\<open>bytes.Buffer\<close> as a writer: the bytes are appended.\<close>

definition Buffer_Write :: "byte list \<Rightarrow> byte list \<Rightarrow> error option \<times> byte list" where
  "Buffer_Write b p = (None, b @ p)"

text \<open>
  A seekable byte stream (\<open>io.ReadSeeker\<close>): the bytes and the current offset.  \<open>read_full\<close>
  is \<open>io.ReadFull\<close> as \<open>binary.Read\<close> calls it: a request for no bytes succeeds at once; a
  request met by no byte at all fails with \<open>io.EOF\<close>, one met in part with
  \<open>io.ErrUnexpectedEOF\<close>, and the bytes that were there are consumed.
\<close>

record stream =
  s_buf :: "byte list"
  s_pos :: nat

definition read_full :: "nat \<Rightarrow> stream \<Rightarrow> (error + byte list) \<times> stream" where
  "read_full n r =
     (if n = 0 then (Inr [], r)
      else if s_pos r + n \<le> length (s_buf r)
           then (Inr (take n (drop (s_pos r) (s_buf r))), r\<lparr>s_pos := s_pos r + n\<rparr>)
      else if length (s_buf r) \<le> s_pos r then (Inl EOF, r)
      else (Inl ErrUnexpectedEOF, r\<lparr>s_pos := length (s_buf r)\<rparr>))"

text \<open>\<open>Seek(offset, io.SeekCurrent)\<close>: a negative resulting offset is an error.\<close>

definition Seek_Current :: "int \<Rightarrow> stream \<Rightarrow> (error + nat) \<times> stream" where
  "Seek_Current offset r =
     (if int (s_pos r) + offset < 0 then (Inl ErrInvalid, r)
      else (Inr (nat (int (s_pos r) + offset)), r\<lparr>s_pos := nat (int (s_pos r) + offset)\<rparr>))"

definition Seek_End :: "stream \<Rightarrow> (error + nat) \<times> stream" where
  "Seek_End r = (Inr (length (s_buf r)), r\<lparr>s_pos := length (s_buf r)\<rparr>)"

definition readEntry :: "stream \<Rightarrow> (error + Entry) \<times> stream" where
  "readEntry reader =
     (case read_full 8 reader of
        (Inl e, r1) \<Rightarrow> (Inl e, r1)
      | (Inr bIndex, r1) \<Rightarrow>
     (case read_full 4 r1 of
        (Inl e, r2) \<Rightarrow> (Inl e, r2)
      | (Inr bLength, r2) \<Rightarrow>
     (case read_full (unat (le32_dec bLength)) r2 of
        (Inl e, r3) \<Rightarrow> (Inl e, r3)
      | (Inr data, r3) \<Rightarrow>
     (case read_full 15 r3 of
        (Inl e, r4) \<Rightarrow> (Inl e, r4)
      | (Inr tbin, r4) \<Rightarrow>
     (case UnmarshalBinary tbin of
        Inl e \<Rightarrow> (Inl e, r4)
      | Inr timestamp \<Rightarrow>
     (case read_full 4 r4 of
        (Inl e, r5) \<Rightarrow> (Inl e, r5)
      | (Inr bCrc, r5) \<Rightarrow>
     (case read_full 4 r5 of
        (Inl e, r6) \<Rightarrow> (Inl e, r6)
      | (Inr bTrailer, r6) \<Rightarrow>
          if Checksum data \<noteq> le32_dec bCrc then (Inl ErrCrc32Mismatch, r6)
          else (Inr \<lparr>Index = le64_dec bIndex, Length = le32_dec bTrailer, Data = data,
                     Timestamp = timestamp, Crc32 = le32_dec bCrc\<rparr>, r6))))))))"

definition gotoPreviousEntry :: "stream \<Rightarrow> error option \<times> stream" where
  "gotoPreviousEntry reader =
     (if s_pos reader = 0 then (Some ErrNoPreviousEntry, reader)
      else
     (case Seek_Current (- 4) reader of
        (Inl e, r1) \<Rightarrow> (Some e, r1)
      | (Inr _, r1) \<Rightarrow>
     (case read_full 4 r1 of
        (Inl e, r2) \<Rightarrow> (Some e, r2)
      | (Inr bLength, r2) \<Rightarrow>
     (case Seek_Current (- uint (le32_dec bLength + of_nat ConstEntrySize)) r2 of
        (Inl e, r3) \<Rightarrow> (Some e, r3)
      | (Inr _, r3) \<Rightarrow> (None, r3)))))"

definition readPreviousEntry :: "stream \<Rightarrow> (error + Entry) \<times> stream" where
  "readPreviousEntry reader =
     (case gotoPreviousEntry reader of
        (Some e, r1) \<Rightarrow> (Inl e, r1)
      | (None, r1) \<Rightarrow> readEntry r1)"

section \<open>The file system\<close>

text \<open>
  Files and directories live in a table from absolute, slash-separated paths to nodes.  An
  open file (\<open>*os.File\<close>) is a handle: the path it was opened on and its own offset, so that
  a reader's position is independent of the writer's.  Disk failures are not modelled: an
  operation fails only for the reasons visible in the table (missing path, wrong kind of
  node, nil handle).
\<close>

datatype node = Directory | File "byte list"

type_synonym fs = "(string \<times> node) list"

record handle =
  h_path :: string
  h_pos :: nat

definition IsDir :: "node \<Rightarrow> bool" where
  "IsDir info \<longleftrightarrow> info = Directory"

definition Lstat :: "fs \<Rightarrow> string \<Rightarrow> error + node" where
  "Lstat fs p = (case map_of fs p of None \<Rightarrow> Inl ErrNotExist | Some info \<Rightarrow> Inr info)"

definition contents :: "fs \<Rightarrow> string \<Rightarrow> byte list" where
  "contents fs p = (case map_of fs p of Some (File bs) \<Rightarrow> bs | _ \<Rightarrow> [])"

text \<open>\<open>filepath.Dir\<close>, \<open>filepath.Base\<close>, \<open>filepath.Ext\<close> and \<open>filepath.Join\<close> on clean paths.\<close>

definition dirname :: "string \<Rightarrow> string" where
  "dirname p =
     (let d = rev (drop 1 (dropWhile (\<lambda>c. c \<noteq> CHR ''/'') (rev p)))
      in if d = [] then ''/'' else d)"

definition Base :: "string \<Rightarrow> string" where
  "Base p =
     (if p = [] then ''.''
      else (let q = dropWhile (\<lambda>c. c = CHR ''/'') (rev p)
            in if q = [] then ''/'' else rev (takeWhile (\<lambda>c. c \<noteq> CHR ''/'') q)))"

definition Ext :: "string \<Rightarrow> string" where
  "Ext p =
     (let r = rev p;
          suffix = takeWhile (\<lambda>c. c \<noteq> CHR ''.'' \<and> c \<noteq> CHR ''/'') r
      in case drop (length suffix) r of
           [] \<Rightarrow> []
         | c # _ \<Rightarrow> if c = CHR ''.'' then c # rev suffix else [])"

definition Join :: "string \<Rightarrow> string \<Rightarrow> string" where
  "Join dir name = dir @ ''/'' @ name"

text \<open>\<open>os.OpenFile(path, os.O_RDWR, 0755)\<close>: the file must exist; the offset starts at 0.\<close>

definition OpenFile :: "fs \<Rightarrow> string \<Rightarrow> error + handle" where
  "OpenFile fs p =
     (case map_of fs p of
        None \<Rightarrow> Inl ErrNotExist
      | Some Directory \<Rightarrow> Inl ErrIsDirectory
      | Some (File _) \<Rightarrow> Inr \<lparr>h_path = p, h_pos = 0\<rparr>)"

text \<open>\<open>os.Create\<close>: the file is created, or truncated when it exists, in an existing directory.\<close>

definition Create :: "fs \<Rightarrow> string \<Rightarrow> (error + handle) \<times> fs" where
  "Create fs p =
     (case map_of fs p of
        Some Directory \<Rightarrow> (Inl ErrIsDirectory, fs)
      | _ \<Rightarrow>
          (case map_of fs (dirname p) of
             None \<Rightarrow> (Inl ErrNotExist, fs)
           | Some (File _) \<Rightarrow> (Inl ErrNotADirectory, fs)
           | Some Directory \<Rightarrow> (Inr \<lparr>h_path = p, h_pos = 0\<rparr>, AList.update p (File []) fs)))"

text \<open>
  \<open>os.MkdirAll\<close>: nothing to do for an existing directory; otherwise the parents are made
  first, then the directory itself.
\<close>

function MkdirAll :: "fs \<Rightarrow> string \<Rightarrow> error option \<times> fs" where
  "MkdirAll fs p =
     (case map_of fs p of
        Some Directory \<Rightarrow> (None, fs)
      | Some (File _) \<Rightarrow> (Some ErrNotADirectory, fs)
      | None \<Rightarrow>
          if length (dirname p) < length p
          then (case MkdirAll fs (dirname p) of
                  (Some e, fs') \<Rightarrow> (Some e, fs')
                | (None, fs') \<Rightarrow> (None, AList.update p Directory fs'))
          else (None, AList.update p Directory fs))"
  by pat_completeness auto

text \<open>
  Writing through a handle: the bytes replace or extend the file at the handle's offset,
  which advances.  A nil \<open>*os.File\<close> refuses with \<open>os.ErrInvalid\<close>.
\<close>

definition write_at :: "byte list \<Rightarrow> nat \<Rightarrow> byte list \<Rightarrow> byte list" where
  "write_at old off p =
     take off (old @ replicate (off - length old) 0) @ p @ drop (off + length p) old"

definition File_Write ::
  "fs \<times> handle option \<Rightarrow> byte list \<Rightarrow> error option \<times> (fs \<times> handle option)" where
  "File_Write w p =
     (case snd w of
        None \<Rightarrow> (Some ErrInvalid, w)
      | Some h \<Rightarrow>
          (None,
           (AList.update (h_path h) (File (write_at (contents (fst w) (h_path h)) (h_pos h) p))
              (fst w),
            Some (h\<lparr>h_pos := h_pos h + length p\<rparr>))))"

text \<open>Reading through a handle: the stream is the file's bytes at the handle's offset.\<close>

definition file_stream :: "fs \<Rightarrow> handle \<Rightarrow> stream" where
  "file_stream fs h = \<lparr>s_buf = contents fs (h_path h), s_pos = h_pos h\<rparr>"

definition set_pos :: "handle \<Rightarrow> stream \<Rightarrow> handle" where
  "set_pos h r = h\<lparr>h_pos := s_pos r\<rparr>"

section \<open>Segments (segment.go)\<close>

record segment =
  firstIndex :: uint64
  lastIndex :: uint64
  firstTimestamp :: Time
  lastTimestamp :: Time
  path :: string
  fhandle :: "handle option"
  fileLength :: uint64

text \<open>
  \<open>fmt.Sprintf("%020d.wal", index)\<close>: a \<open>uint64\<close> has at most twenty decimal digits, so the
  zero-padded number is exactly twenty digits long.  \<open>fmt.Sscanf(name, "%d.wal", &current)\<close>
  skips leading blanks, reads the digits, which must fit a \<open>uint64\<close>, and expects the literal
  \<open>.wal\<close> after them.
\<close>

definition digit_char :: "nat \<Rightarrow> char" where
  "digit_char d = char_of (48 + d)"

definition digit_val :: "char \<Rightarrow> int" where
  "digit_val c = int (of_char c) - 48"

definition is_digit :: "char \<Rightarrow> bool" where
  "is_digit c \<longleftrightarrow> CHR ''0'' \<le> c \<and> c \<le> CHR ''9''"

primrec decimal :: "nat \<Rightarrow> int \<Rightarrow> string" where
  "decimal 0 n = []"
| "decimal (Suc k) n = decimal k (n div 10) @ [digit_char (nat (n mod 10))]"

definition Sprintf_020d_wal :: "uint64 \<Rightarrow> string" where
  "Sprintf_020d_wal index' = decimal 20 (uint index') @ ''.wal''"

definition decimal_val :: "string \<Rightarrow> int" where
  "decimal_val ds = foldl (\<lambda>a c. 10 * a + digit_val c) 0 ds"

definition Sscanf_d_wal :: "string \<Rightarrow> error + uint64" where
  "Sscanf_d_wal name =
     (let s = dropWhile (\<lambda>c. c = CHR '' '' \<or> c = CHR 0x09 \<or> c = CHR 0x0D) name;
          tok = takeWhile is_digit s;
          rest = dropWhile is_digit s
      in if tok = [] then Inl ErrScan
         else if decimal_val tok \<ge> 2 ^ 64 then Inl ErrScan
         else if take 4 rest \<noteq> ''.wal'' then Inl ErrScan
         else Inr (of_int (decimal_val tok)))"

definition createSegment :: "fs \<Rightarrow> string \<Rightarrow> uint64 \<Rightarrow> (error + segment) \<times> fs" where
  "createSegment fs dir index =
     (let fname = Sprintf_020d_wal index;
          fpath = Join dir fname
      in case Create fs fpath of
           (Inl e, fs') \<Rightarrow> (Inl e, fs')
         | (Inr f, fs') \<Rightarrow>
             (Inr \<lparr>firstIndex = index, lastIndex = index, firstTimestamp = zeroTime,
                   lastTimestamp = zeroTime, path = fpath, fhandle = Some f, fileLength = 0\<rparr>,
              fs'))"

text \<open>
  \<open>loadSegment\<close> works on a handle of its own, closed again before it returns: only the
  metadata leaves the function, with the \<open>file\<close> field (\<open>fhandle\<close> here) nil.
\<close>

definition loadSegment :: "fs \<Rightarrow> string \<Rightarrow> error + segment" where
  "loadSegment fs p =
     (case OpenFile fs p of
        Inl e \<Rightarrow> Inl e
      | Inr f \<Rightarrow>
     (case (case readEntry (file_stream fs f) of
              (Inl e, r1) \<Rightarrow> if e = EOF then Inr (zeroTime, r1) else Inl e
            | (Inr m, r1) \<Rightarrow> Inr (Timestamp m, r1)) of
        Inl e \<Rightarrow> Inl e
      | Inr (firstTimestamp', r1) \<Rightarrow>
     (case Seek_End r1 of
        (Inl e, r2) \<Rightarrow> Inl e
      | (Inr length', r2) \<Rightarrow>
     (case Sscanf_d_wal (Base p) of
        Inl e \<Rightarrow> Inl e
      | Inr current' \<Rightarrow>
          if length' > 0
          then (case readPreviousEntry r2 of
                  (Inl e, r3) \<Rightarrow> Inl e
                | (Inr m, r3) \<Rightarrow>
                    Inr \<lparr>firstIndex = current', lastIndex = Index m,
                         firstTimestamp = firstTimestamp', lastTimestamp = Timestamp m,
                         path = p, fhandle = None, fileLength = of_nat length'\<rparr>)
          else Inr \<lparr>firstIndex = current', lastIndex = current',
                    firstTimestamp = firstTimestamp', lastTimestamp = firstTimestamp',
                    path = p, fhandle = None, fileLength = of_nat length'\<rparr>))))"

definition segment_open :: "fs \<Rightarrow> segment \<Rightarrow> error option \<times> segment" where
  "segment_open fs s =
     (if fhandle s \<noteq> None then (Some ErrFileAlreadyOpen, s)
      else (case OpenFile fs (path s) of
              Inl e \<Rightarrow> (Some e, s)
            | Inr f \<Rightarrow> (None, s\<lparr>fhandle := Some f\<rparr>)))"

definition segment_write :: "fs \<Rightarrow> segment \<Rightarrow> Entry \<Rightarrow> error option \<times> segment \<times> fs" where
  "segment_write fs s message =
     (case writeEntry File_Write (fs, fhandle s) (Some message) of
        (Some e, (fs', f')) \<Rightarrow> (Some e, s\<lparr>fhandle := f'\<rparr>, fs')
      | (None, (fs', f')) \<Rightarrow>
          (None,
           s\<lparr>fhandle := f',
             lastIndex := Index message,
             lastTimestamp := Timestamp message,
             firstTimestamp := (if fileLength s = 0 then Timestamp message
                                else firstTimestamp s),
             fileLength := fileLength s + size_of message\<rparr>,
           fs'))"

text \<open>
  \<open>segment.flush\<close> is \<open>File.Sync\<close>: it commits the file, as it is at that moment, to stable
  storage.  Nothing in the program reads stable storage back, so the effect is kept as a
  trace: every function that can reach \<open>Sync\<close> also returns the list of what was committed,
  path and contents, in the order of the calls.
\<close>

type_synonym synced = "(string \<times> byte list) list"

definition segment_flush :: "fs \<Rightarrow> segment \<Rightarrow> error option \<times> synced" where
  "segment_flush fs s =
     (case fhandle s of
        None \<Rightarrow> (Some ErrInvalid, [])
      | Some h \<Rightarrow> (None, [(h_path h, contents fs (h_path h))]))"

definition segment_close :: "segment \<Rightarrow> error option \<times> segment" where
  "segment_close s =
     ((case fhandle s of None \<Rightarrow> Some ErrInvalid | Some _ \<Rightarrow> None), s\<lparr>fhandle := None\<rparr>)"

section \<open>The log (wal.go)\<close>

record config =
  MaxSegmentSize :: uint64
  MaxSegmentCount :: uint64
  ExpirationTime :: "64 word"
  ExpirationInterval :: "64 word"

text \<open>
  \<open>wal.current\<close> is a pointer to one of the segments that \<open>wal.segments\<close> points to: \<open>New\<close>,
  \<open>Load\<close> and \<open>cycle\<close>, the only places that assign it, store the same pointer in both.  The
  segments are therefore kept once, in the list, and \<open>current\<close> is the position of the
  active one (\<open>None\<close> for nil), so that a write through \<open>current\<close> is seen through
  \<open>segments\<close>.
\<close>

record Wal =
  wal_path :: string
  current :: "nat option"
  segments :: "segment list"
  config :: config
  index :: uint64

type_synonym WalOption = "Wal \<Rightarrow> Wal"

definition WithMaxSegmentSize :: "uint64 \<Rightarrow> WalOption" where
  "WithMaxSegmentSize maxSegmentSize =
     (\<lambda>wal. wal\<lparr>config := (config wal)\<lparr>MaxSegmentSize := maxSegmentSize\<rparr>\<rparr>)"

definition WithMaxSegmentCount :: "uint64 \<Rightarrow> WalOption" where
  "WithMaxSegmentCount maxSegmentCount =
     (\<lambda>wal. wal\<lparr>config := (config wal)\<lparr>MaxSegmentCount := maxSegmentCount\<rparr>\<rparr>)"

definition WithExpiration :: "64 word \<Rightarrow> 64 word \<Rightarrow> WalOption" where
  "WithExpiration limit interval =
     (\<lambda>wal. wal\<lparr>config := (config wal)\<lparr>ExpirationTime := limit,
                                           ExpirationInterval := interval\<rparr>\<rparr>)"

text \<open>
  The JSON encoder and decoder of the Go library are parameters of \<open>New\<close> and \<open>Load\<close>:
  \<open>json_Encode\<close> gives the bytes written to \<open>config.json\<close>, \<open>json_Decode\<close> reads a
  configuration back or fails.
\<close>

definition writeConfigToDisk ::
  "(config \<Rightarrow> byte list) \<Rightarrow> fs \<Rightarrow> Wal \<Rightarrow> error option \<times> fs" where
  "writeConfigToDisk json_Encode fs wal =
     (let cpath = Join (wal_path wal) ''config.json''
      in case Create fs cpath of
           (Inl e, fs') \<Rightarrow> (Some e, fs')
         | (Inr f, fs') \<Rightarrow>
             (case File_Write (fs', Some f) (json_Encode (config wal)) of
                (err, (fs'', _)) \<Rightarrow> (err, fs'')))"

text \<open>
  \<open>New\<close>.  Paths are taken absolute and slash-separated, as \<open>filepath.Abs\<close> and
  \<open>filepath.ToSlash\<close> leave them.
\<close>

definition New ::
  "(config \<Rightarrow> byte list) \<Rightarrow> fs \<Rightarrow> string \<Rightarrow> WalOption list \<Rightarrow> (error + Wal) \<times> fs" where
  "New json_Encode fs p options =
     (let wal0 = \<lparr>wal_path = p, current = None, segments = [],
                  config = \<lparr>MaxSegmentSize = 0, MaxSegmentCount = 0, ExpirationTime = 0,
                            ExpirationInterval = 0\<rparr>,
                  index = 0\<rparr>;
          wal1 = fold (\<lambda>option wal. option wal) options wal0
      in case Lstat fs p of
           Inr _ \<Rightarrow> (Inl ErrExist, fs)
         | Inl e \<Rightarrow>
             if e \<noteq> ErrNotExist then (Inl e, fs)
             else
            (case MkdirAll fs (wal_path wal1) of
               (Some e, fs1) \<Rightarrow> (Inl e, fs1)
             | (None, fs1) \<Rightarrow>
            (case createSegment fs1 (wal_path wal1) 0 of
               (Inl e, fs2) \<Rightarrow> (Inl e, fs2)
             | (Inr seg, fs2) \<Rightarrow>
                 (let wal2 = wal1\<lparr>current := Some (length (segments wal1)),
                                  segments := segments wal1 @ [seg]\<rparr>
                  in case writeConfigToDisk json_Encode fs2 wal2 of
                       (Some e, fs3) \<Rightarrow> (Inl e, fs3)
                     | (None, fs3) \<Rightarrow> (Inr wal2, fs3)))))"

text \<open>The loop of \<open>Load\<close> over the sorted directory listing.\<close>

fun load_segments :: "fs \<Rightarrow> string list \<Rightarrow> error + segment list" where
  "load_segments fs [] = Inr []"
| "load_segments fs (p # ps) =
     (case Lstat fs p of
        Inl e \<Rightarrow> Inl e
      | Inr info \<Rightarrow>
          if \<not> IsDir info \<and> Ext (Base p) = ''.wal''
          then (case loadSegment fs p of
                  Inl e \<Rightarrow> Inl e
                | Inr s \<Rightarrow>
                    (case load_segments fs ps of
                       Inl e \<Rightarrow> Inl e
                     | Inr ss \<Rightarrow> Inr (s # ss)))
          else load_segments fs ps)"

text \<open>
  \<open>Load\<close>.  \<open>wal.segments[len(wal.segments)-1]\<close> on an empty slice is the run-time panic
  \<open>PanicIndexOutOfRange\<close>.  Opening the configuration succeeds on any existing path; a
  directory there makes the decoder fail.  The library function \<open>filepath.Glob\<close> is a
  parameter, as the JSON decoder is: \<open>Glob fs pattern\<close> gives the paths that match the
  pattern \<open>filepath.Join(dir, "*")\<close>, or fails (\<open>ErrBadPattern\<close>).  The characters \<open>*\<close>, \<open>?\<close>,
  \<open>[\<close> and the backslash are pattern syntax also inside \<open>dir\<close>: only for a directory path
  without them are the matches the entries of that directory.
\<close>

definition Load ::
  "(byte list \<Rightarrow> config option) \<Rightarrow> (fs \<Rightarrow> string \<Rightarrow> error + string list) \<Rightarrow> fs \<Rightarrow> string
     \<Rightarrow> error + Wal" where
  "Load json_Decode Glob fs dir =
     (case Lstat fs dir of
        Inl e \<Rightarrow> Inl e
      | Inr info \<Rightarrow>
          if \<not> IsDir info then Inl ErrNotADirectory
          else
         (let cpath = Join dir ''config.json''
          in case map_of fs cpath of
               None \<Rightarrow> Inl ErrConfigNotFound
             | Some Directory \<Rightarrow> Inl ErrParseConfig
             | Some (File bs) \<Rightarrow>
            (case json_Decode bs of
               None \<Rightarrow> Inl ErrParseConfig
             | Some cfg \<Rightarrow>
            (case Glob fs (Join dir ''*'') of
               Inl e \<Rightarrow> Inl e
             | Inr paths \<Rightarrow>
            (case load_segments fs (sort paths) of
               Inl e \<Rightarrow> Inl e
             | Inr segs \<Rightarrow>
                 if segs = [] then Inl PanicIndexOutOfRange
                 else
                (case segment_open fs (last segs) of
                   (Some e, _) \<Rightarrow> Inl e
                 | (None, cur) \<Rightarrow>
                     (let cur' = cur\<lparr>fhandle :=
                            map_option (\<lambda>h. set_pos h (snd (Seek_End (file_stream fs h))))
                              (fhandle cur)\<rparr>
                      in Inr \<lparr>wal_path = dir, current = Some (length segs - 1),
                              segments = segs[length segs - 1 := cur'], config = cfg,
                              index = (if fileLength cur' = 0 then lastIndex cur'
                                       else lastIndex cur' + 1)\<rparr>)))))))"

definition Flush :: "Wal \<Rightarrow> fs \<Rightarrow> error option \<times> synced" where
  "Flush wal fs =
     (case current wal of
        None \<Rightarrow> (Some PanicNilDereference, [])
      | Some c \<Rightarrow> segment_flush fs (segments wal ! c))"

definition Close :: "Wal \<Rightarrow> fs \<Rightarrow> error option \<times> Wal \<times> synced" where
  "Close wal fs =
     (case current wal of
        None \<Rightarrow> (Some PanicNilDereference, wal, [])
      | Some c \<Rightarrow>
          (case segment_flush fs (segments wal ! c) of
             (Some e, tr) \<Rightarrow> (Some e, wal, tr)
           | (None, tr) \<Rightarrow>
               (case segment_close (segments wal ! c) of
                  (err, s') \<Rightarrow> (err, wal\<lparr>segments := (segments wal)[c := s']\<rparr>, tr))))"

definition cycle :: "Wal \<Rightarrow> fs \<Rightarrow> error option \<times> Wal \<times> fs \<times> synced" where
  "cycle wal fs =
     (case Close wal fs of
        (Some e, wal1, tr) \<Rightarrow> (Some e, wal1, fs, tr)
      | (None, wal1, tr) \<Rightarrow>
          (case createSegment fs (wal_path wal1) (index wal1) of
             (Inl e, fs') \<Rightarrow> (Some e, wal1\<lparr>current := None\<rparr>, fs', tr)
           | (Inr seg, fs') \<Rightarrow>
               (None,
                wal1\<lparr>current := Some (length (segments wal1)),
                     segments := segments wal1 @ [seg]\<rparr>,
                fs', tr)))"

text \<open>\<open>Wal.Write\<close>; \<open>now\<close> is the clock reading that \<open>newMessage\<close> takes.\<close>

definition Write ::
  "Time \<Rightarrow> Wal \<Rightarrow> fs \<Rightarrow> byte list \<Rightarrow> error option \<times> Wal \<times> fs \<times> synced" where
  "Write now wal fs message =
     (case current wal of
        None \<Rightarrow> (Some ErrNoSegmentsFound, wal, fs, [])
      | Some c \<Rightarrow>
          (case (if MaxSegmentSize (config wal) \<noteq> 0
                    \<and> fileLength (segments wal ! c) \<ge> MaxSegmentSize (config wal)
                 then cycle wal fs else (None, wal, fs, [])) of
             (Some e, wal1, fs1, tr) \<Rightarrow> (Some e, wal1, fs1, tr)
           | (None, wal1, fs1, tr) \<Rightarrow>
               (case current wal1 of
                  None \<Rightarrow> (Some PanicNilDereference, wal1, fs1, tr)
                | Some c1 \<Rightarrow>
                    (case segment_write fs1 (segments wal1 ! c1)
                            (newMessage (index wal1) message now) of
                       (err, s', fs2) \<Rightarrow>
                         (err,
                          wal1\<lparr>segments := (segments wal1)[c1 := s'],
                               index := index wal1 + 1\<rparr>,
                          fs2, tr)))))"

section \<open>Readers (reader.go, options.go)\<close>

text \<open>
  A \<open>Reader\<close> owns its current segment, a copy made by \<open>loadSegment\<close> with a handle of its
  own; the log it reads is passed to \<open>Next\<close>, which looks at the log's segment list as it
  is at the time of the call.
\<close>

record Reader =
  r_index :: uint64
  r_timestamp :: Time
  r_current :: "segment option"

type_synonym ReaderOption = "Reader \<Rightarrow> error option \<times> Reader"

definition WithIndex :: "uint64 \<Rightarrow> ReaderOption" where
  "WithIndex index' =
     (\<lambda>reader.
        (let reader' = reader\<lparr>r_index := index'\<rparr>
         in if \<not> IsZero (r_timestamp reader') then (Some ErrIndexAndTimestampSet, reader')
            else (None, reader')))"

definition WithTimestamp :: "Time \<Rightarrow> ReaderOption" where
  "WithTimestamp timestamp =
     (\<lambda>reader.
        (let reader' = reader\<lparr>r_timestamp := timestamp\<rparr>
         in if r_index reader' \<noteq> 0 then (Some ErrIndexAndTimestampSet, reader')
            else (None, reader')))"

fun apply_options :: "ReaderOption list \<Rightarrow> Reader \<Rightarrow> error + Reader" where
  "apply_options [] reader = Inr reader"
| "apply_options (option # options) reader =
     (case option reader of
        (Some e, _) \<Rightarrow> Inl e
      | (None, reader') \<Rightarrow> apply_options options reader')"

text \<open>\<open>slices.IndexFunc\<close>: the position of the first element that satisfies the test.\<close>

fun IndexFunc :: "('a \<Rightarrow> bool) \<Rightarrow> 'a list \<Rightarrow> nat option" where
  "IndexFunc f [] = None"
| "IndexFunc f (x # xs) = (if f x then Some 0 else map_option Suc (IndexFunc f xs))"

text \<open>The two tests of the index search, in the order of the loop body.\<close>

definition index_match :: "uint64 \<Rightarrow> segment \<Rightarrow> bool" where
  "index_match i s =
     (if i > firstIndex s \<and> i < lastIndex s then True
      else if i = firstIndex s \<or> i = lastIndex s then True
      else False)"

text \<open>
  The timestamp search: the three tests of the loop body; the third looks at the segment
  after the current one, when there is one.
\<close>

fun timestamp_search :: "Time \<Rightarrow> segment list \<Rightarrow> nat option" where
  "timestamp_search t [] = None"
| "timestamp_search t (s # rest) =
     (if After t (firstTimestamp s) \<and> Before t (lastTimestamp s) then Some 0
      else if Equal t (firstTimestamp s) \<or> Equal t (lastTimestamp s) then Some 0
      else if rest \<noteq> [] \<and> After t (lastTimestamp s)
              \<and> Before t (firstTimestamp (hd rest)) then Some 0
      else map_option Suc (timestamp_search t rest))"

text \<open>
  What both branches of \<open>Wal.Reader\<close> do with the outcome of their search: load the segment
  found; when none was found, load the first segment if the target lies before it
  (\<open>before_first\<close>) and the last one otherwise; then open the reader's copy.
  \<open>wal.segments[0]\<close> on an empty list is the panic.
\<close>

definition load_found :: "Wal \<Rightarrow> fs \<Rightarrow> nat option \<Rightarrow> bool \<Rightarrow> error + segment" where
  "load_found wal fs sindex before_first =
     (case (case sindex of
              Some i \<Rightarrow> loadSegment fs (path (segments wal ! i))
            | None \<Rightarrow>
                if segments wal = [] then Inl PanicIndexOutOfRange
                else if before_first then loadSegment fs (path (segments wal ! 0))
                else loadSegment fs (path (segments wal ! (length (segments wal) - 1)))) of
        Inl e \<Rightarrow> Inl e
      | Inr cur \<Rightarrow>
          (case segment_open fs cur of
             (Some e, _) \<Rightarrow> Inl e
           | (None, cur') \<Rightarrow> Inr cur'))"

text \<open>The two seek loops.  Each turn decodes an entry, so the offset advances.\<close>

function seek_index :: "uint64 \<Rightarrow> uint64 \<Rightarrow> stream \<Rightarrow> error + uint64 \<times> stream" where
  "seek_index target i r =
     (if target > i
      then (case readEntry r of
              (Inl e, r') \<Rightarrow> if e = EOF then Inr (i, r') else Inl e
            | (Inr entry, r') \<Rightarrow> seek_index target (Index entry) r')
      else Inr (i, r))"
  by pat_completeness auto

function seek_timestamp ::
  "Time \<Rightarrow> Time \<Rightarrow> uint64 \<Rightarrow> stream \<Rightarrow> error + uint64 \<times> stream" where
  "seek_timestamp target t i r =
     (if After target t
      then (case readEntry r of
              (Inl e, r') \<Rightarrow> if e = EOF then Inr (i, r') else Inl e
            | (Inr entry, r') \<Rightarrow> seek_timestamp target (Timestamp entry) (Index entry) r')
      else Inr (i, r))"
  by pat_completeness auto

text \<open>
  The end of both branches: step back one entry (\<open>ErrNoPreviousEntry\<close> is ignored), keep the
  offset in the reader's handle and set the reader's index.
\<close>

definition position :: "Reader \<Rightarrow> segment \<Rightarrow> handle \<Rightarrow> uint64 \<Rightarrow> stream \<Rightarrow> error + Reader" where
  "position reader cur h i r =
     (case gotoPreviousEntry r of
        (Some e, r') \<Rightarrow>
          if e = ErrNoPreviousEntry
          then Inr (reader\<lparr>r_index := i, r_current := Some (cur\<lparr>fhandle := Some (set_pos h r')\<rparr>)\<rparr>)
          else Inl e
      | (None, r') \<Rightarrow>
          Inr (reader\<lparr>r_index := i, r_current := Some (cur\<lparr>fhandle := Some (set_pos h r')\<rparr>)\<rparr>))"

definition Wal_Reader :: "Wal \<Rightarrow> fs \<Rightarrow> ReaderOption list \<Rightarrow> error + Reader" where
  "Wal_Reader wal fs options =
     (case apply_options options \<lparr>r_index = 0, r_timestamp = zeroTime, r_current = None\<rparr> of
        Inl e \<Rightarrow> Inl e
      | Inr reader \<Rightarrow>
          if IsZero (r_timestamp reader)
          then
            (case load_found wal fs (IndexFunc (index_match (r_index reader)) (segments wal))
                    (segments wal \<noteq> [] \<and> r_index reader < firstIndex (segments wal ! 0)) of
               Inl e \<Rightarrow> Inl e
             | Inr cur \<Rightarrow>
                 (case fhandle cur of
                    None \<Rightarrow> Inl ErrInvalid
                  | Some h \<Rightarrow>
                      (case seek_index (r_index reader) (firstIndex cur) (file_stream fs h) of
                         Inl e \<Rightarrow> Inl e
                       | Inr (i, r) \<Rightarrow> position reader cur h i r)))
          else
            (case load_found wal fs (timestamp_search (r_timestamp reader) (segments wal))
                    (segments wal \<noteq> []
                     \<and> Before (r_timestamp reader) (firstTimestamp (segments wal ! 0))) of
               Inl e \<Rightarrow> Inl e
             | Inr cur \<Rightarrow>
                 (case fhandle cur of
                    None \<Rightarrow> Inl ErrInvalid
                  | Some h \<Rightarrow>
                      (case seek_timestamp (r_timestamp reader) (firstTimestamp cur)
                              (firstIndex cur) (file_stream fs h) of
                         Inl e \<Rightarrow> Inl e
                       | Inr (i, r) \<Rightarrow> position reader cur h i r))))"

text \<open>
  \<open>Reader.Next\<close>.  \<open>next_segment\<close> is the body of \<open>if r.index > r.current.lastIndex\<close>: it
  leaves the reader on the opened copy of the following segment, or fails; a failed
  \<open>loadSegment\<close> leaves \<open>r.current\<close> nil.
\<close>

definition next_segment :: "Wal \<Rightarrow> fs \<Rightarrow> Reader \<Rightarrow> segment \<Rightarrow> error option \<times> Reader" where
  "next_segment wal fs r cur =
     (case IndexFunc (\<lambda>s. path s = path cur) (segments wal) of
        None \<Rightarrow> (Some ErrNoSegmentsFound, r\<lparr>r_current := Some cur\<rparr>)
      | Some sindex \<Rightarrow>
          if sindex + 1 \<ge> length (segments wal)
          then (Some ErrNoSegmentsFound, r\<lparr>r_current := Some cur\<rparr>)
          else
            (case segment_close cur of
               (Some e, cur') \<Rightarrow> (Some e, r\<lparr>r_current := Some cur'\<rparr>)
             | (None, cur') \<Rightarrow>
                 (case loadSegment fs (path (segments wal ! (sindex + 1))) of
                    Inl e \<Rightarrow> (Some e, r\<lparr>r_current := None\<rparr>)
                  | Inr nxt \<Rightarrow>
                      (case segment_open fs nxt of
                         (err, nxt') \<Rightarrow> (err, r\<lparr>r_current := Some nxt'\<rparr>)))))"

definition Next :: "Wal \<Rightarrow> fs \<Rightarrow> Reader \<Rightarrow> (error + Entry) \<times> Reader" where
  "Next wal fs r =
     (case r_current r of
        None \<Rightarrow> (Inl ErrNoSegmentsFound, r)
      | Some cur0 \<Rightarrow>
     (case (if fhandle cur0 = None then segment_open fs cur0 else (None, cur0)) of
        (Some e, cur1) \<Rightarrow> (Inl e, r\<lparr>r_current := Some cur1\<rparr>)
      | (None, cur1) \<Rightarrow>
     (case (if r_index r > lastIndex cur1 then next_segment wal fs r cur1
            else (None, r\<lparr>r_current := Some cur1\<rparr>)) of
        (Some e, r1) \<Rightarrow> (Inl e, r1)
      | (None, r1) \<Rightarrow>
     (case r_current r1 of
        None \<Rightarrow> (Inl PanicNilDereference, r1)
      | Some cur2 \<Rightarrow>
     (case fhandle cur2 of
        None \<Rightarrow> (Inl ErrInvalid, r1)
      | Some h \<Rightarrow>
     (case readEntry (file_stream fs h) of
        (Inl e, s') \<Rightarrow> (Inl e, r1\<lparr>r_current := Some (cur2\<lparr>fhandle := Some (set_pos h s')\<rparr>)\<rparr>)
      | (Inr entry, s') \<Rightarrow>
          (Inr entry,
           r1\<lparr>r_index := Index entry + 1,
              r_current := Some (cur2\<lparr>fhandle := Some (set_pos h s')\<rparr>)\<rparr>)))))))"

definition Reader_Close :: "Reader \<Rightarrow> error option \<times> Reader" where
  "Reader_Close r =
     (case r_current r of
        None \<Rightarrow> (None, r)
      | Some cur \<Rightarrow> (case segment_close cur of (err, cur') \<Rightarrow> (err, r\<lparr>r_current := Some cur'\<rparr>)))"


section \<open>Notions used in the proofs\<close>

text \<open>
  The fifteen bytes that \<open>writeEntry\<close> stores for a timestamp, the bytes of a whole
  record, and an entry as \<open>readEntry\<close> gives it back: with its timestamp in UTC.
\<close>

definition time_bytes :: "Time \<Rightarrow> byte list" where
  "time_bytes t = [1] @ be64 (t_sec t) @ be32 (t_nsec t) @ be16 (- 1)"

definition entry_bytes :: "Entry \<Rightarrow> byte list" where
  "entry_bytes m = le64 (Index m) @ le32 (Length m) @ Data m @ time_bytes (Timestamp m)
     @ le32 (Crc32 m) @ le32 (Length m)"

definition stored :: "Entry \<Rightarrow> Entry" where
  "stored m = m\<lparr>Timestamp := In_UTC (Timestamp m)\<rparr>"

definition seg_bytes :: "Entry list \<Rightarrow> byte list" where
  "seg_bytes es = concat (map entry_bytes es)"

definition wf_entry :: "Entry \<Rightarrow> bool" where
  "wf_entry m \<longleftrightarrow> unat (Length m) = length (Data m) \<and> Crc32 m = Checksum (Data m)
     \<and> length (Data m) + 35 < 2 ^ 32"

fun scan_index :: "uint64 \<Rightarrow> uint64 \<Rightarrow> Entry list \<Rightarrow> uint64 \<times> nat" where
  "scan_index target i [] = (i, 0)"
| "scan_index target i (m # ms) =
     (if target > i then (case scan_index target (Index m) ms of (i', n) \<Rightarrow> (i', Suc n))
      else (i, 0))"

fun scan_timestamp :: "Time \<Rightarrow> Time \<Rightarrow> uint64 \<Rightarrow> Entry list \<Rightarrow> uint64 \<times> nat" where
  "scan_timestamp target t i [] = (i, 0)"
| "scan_timestamp target t i (m # ms) =
     (if After target t
      then (case scan_timestamp target (Timestamp m) (Index m) ms of (i', n) \<Rightarrow> (i', Suc n))
      else (i, 0))"

definition loaded :: "string \<Rightarrow> uint64 \<Rightarrow> Entry list \<Rightarrow> segment" where
  "loaded p b ms =
     \<lparr>firstIndex = b,
      lastIndex = (if ms = [] then b else Index (last ms)),
      firstTimestamp = (if ms = [] then zeroTime else In_UTC (Timestamp (hd ms))),
      lastTimestamp = (if ms = [] then zeroTime else In_UTC (Timestamp (last ms))),
      path = p, fhandle = None, fileLength = of_nat (length (seg_bytes ms))\<rparr>"

definition log_entries :: "(Time \<times> byte list) list \<Rightarrow> Entry list" where
  "log_entries ws = map (\<lambda>(k, now, p). newMessage (of_nat k) p now) (zip [0..<length ws] ws)"

definition fits :: "(Time \<times> byte list) list \<Rightarrow> bool" where
  "fits ws \<longleftrightarrow> (\<forall>w \<in> set ws. length (snd w) + 35 < 2 ^ 32)
     \<and> (\<Sum>w\<leftarrow>ws. 35 + length (snd w)) < 2 ^ 64"

definition seg_inv :: "fs \<Rightarrow> string \<Rightarrow> segment \<Rightarrow> Entry list \<Rightarrow> bool" where
  "seg_inv fs dir s ms \<longleftrightarrow>
     path s = Join dir (Sprintf_020d_wal (firstIndex s)) \<and>
     map_of fs (path s) = Some (File (seg_bytes ms)) \<and>
     lastIndex s = (if ms = [] then firstIndex s else Index (last ms)) \<and>
     firstTimestamp s = (if ms = [] then zeroTime else Timestamp (hd ms)) \<and>
     lastTimestamp s = (if ms = [] then zeroTime else Timestamp (last ms)) \<and>
     fileLength s = of_nat (length (seg_bytes ms))"

definition wal_inv ::
  "(config \<Rightarrow> byte list) \<Rightarrow> Wal \<Rightarrow> fs \<Rightarrow> Entry list list \<Rightarrow> (Time \<times> byte list) list \<Rightarrow> bool" where
  "wal_inv json wal fs mss ws \<longleftrightarrow>
     mss \<noteq> [] \<and> length (segments wal) = length mss \<and> current wal = Some (length mss - 1) \<and>
     wal_path wal \<noteq> [] \<and> map_of fs (wal_path wal) = Some Directory \<and>
     map_of fs (Join (wal_path wal) ''config.json'') = Some (File (json (config wal))) \<and>
     (\<forall>j < length mss. seg_inv fs (wal_path wal) (segments wal ! j) (mss ! j)) \<and>
     (\<forall>j < length mss. firstIndex (segments wal ! j) = of_nat (length (concat (take j mss)))) \<and>
     (\<forall>j < length mss - 1. mss ! j \<noteq> []) \<and>
     concat mss = log_entries ws \<and> fits ws \<and> index wal = of_nat (length ws) \<and>
     (\<forall>j < length mss - 1. fhandle (segments wal ! j) = None) \<and>
     fhandle (segments wal ! (length mss - 1))
       = Some \<lparr>h_path = path (segments wal ! (length mss - 1)),
               h_pos = length (seg_bytes (last mss))\<rparr> \<and>
     (\<forall>q. map_of fs q \<noteq> None \<longrightarrow> dirname q = wal_path wal \<longrightarrow>
          q = Join (wal_path wal) ''config.json'' \<or> q \<in> path ` set (segments wal)
          \<or> (map_of fs q = Some Directory \<and> length q \<le> length (wal_path wal)))"

definition append_current :: "Time \<Rightarrow> Wal \<Rightarrow> fs \<Rightarrow> byte list \<Rightarrow> error option \<times> Wal \<times> fs" where
  "append_current now wal fs message =
     (case current wal of
        None \<Rightarrow> (Some PanicNilDereference, wal, fs)
      | Some c \<Rightarrow>
          (case segment_write fs (segments wal ! c) (newMessage (index wal) message now) of
             (err, s', fs') \<Rightarrow>
               (err, wal\<lparr>segments := (segments wal)[c := s'], index := index wal + 1\<rparr>, fs')))"

fun Writes :: "(Time \<times> byte list) list \<Rightarrow> Wal \<Rightarrow> fs \<Rightarrow> error option \<times> Wal \<times> fs" where
  "Writes [] wal fs = (None, wal, fs)"
| "Writes ((now, message) # rest) wal fs =
     (case Write now wal fs message of
        (Some e, wal', fs', _) \<Rightarrow> (Some e, wal', fs')
      | (None, wal', fs', _) \<Rightarrow> Writes rest wal' fs')"

definition config_only :: "WalOption \<Rightarrow> bool" where
  "config_only option \<longleftrightarrow> (\<forall>wal. option wal = wal\<lparr>config := config (option wal)\<rparr>)"

text \<open>
  A stand-in for the JSON codec of the Go library, for the closed examples that need an
  encoder or a decoder: the four fields as 64-bit little-endian numbers.
\<close>

definition example_Encode :: "config \<Rightarrow> byte list" where
  "example_Encode cfg = le64 (MaxSegmentSize cfg) @ le64 (MaxSegmentCount cfg)
     @ le64 (ExpirationTime cfg) @ le64 (ExpirationInterval cfg)"

definition example_Decode :: "byte list \<Rightarrow> config option" where
  "example_Decode bs =
     (if length bs = 32
      then Some \<lparr>MaxSegmentSize = le64_dec (take 8 bs),
                 MaxSegmentCount = le64_dec (take 8 (drop 8 bs)),
                 ExpirationTime = le64_dec (take 8 (drop 16 bs)),
                 ExpirationInterval = le64_dec (take 8 (drop 24 bs))\<rparr>
      else None)"

text \<open>
  The states of the closed examples: a clock reading at a whole second; the log that \<open>New\<close>
  makes at \<open>/d\<close> in an empty file system with \<open>MaxSegmentSize = 1\<close>, and its directory; the
  same log after one append of an empty payload at second 1.
\<close>

definition example_time :: "64 word \<Rightarrow> Time" where
  "example_time s = \<lparr>t_sec = s, t_nsec = 0, t_loc = UTC\<rparr>"

definition example_wal0 :: Wal where
  "example_wal0 =
     \<lparr>wal_path = ''/d'', current = Some 0,
      segments = [\<lparr>firstIndex = 0, lastIndex = 0, firstTimestamp = zeroTime,
                   lastTimestamp = zeroTime, path = ''/d/00000000000000000000.wal'',
                   fhandle = Some \<lparr>h_path = ''/d/00000000000000000000.wal'', h_pos = 0\<rparr>,
                   fileLength = 0\<rparr>],
      config = \<lparr>MaxSegmentSize = 1, MaxSegmentCount = 0, ExpirationTime = 0,
                ExpirationInterval = 0\<rparr>,
      index = 0\<rparr>"

definition example_fs0 :: fs where
  "example_fs0 =
     [(''/'', Directory), (''/d'', Directory),
      (''/d/00000000000000000000.wal'', File []),
      (''/d/config.json'',
       File [1, 0, 0, 0, 0, 0, 0, 0, 0, 0, 0, 0, 0, 0, 0, 0, 0, 0, 0, 0, 0, 0, 0, 0, 0, 0, 0, 0,
             0, 0, 0, 0])]"

definition example_wal1 :: Wal where
  "example_wal1 =
     \<lparr>wal_path = ''/d'', current = Some 0,
      segments = [\<lparr>firstIndex = 0, lastIndex = 0, firstTimestamp = example_time 1,
                   lastTimestamp = example_time 1, path = ''/d/00000000000000000000.wal'',
                   fhandle = Some \<lparr>h_path = ''/d/00000000000000000000.wal'', h_pos = 35\<rparr>,
                   fileLength = 35\<rparr>],
      config = \<lparr>MaxSegmentSize = 1, MaxSegmentCount = 0, ExpirationTime = 0,
                ExpirationInterval = 0\<rparr>,
      index = 1\<rparr>"

definition example_fs1 :: fs where
  "example_fs1 =
     [(''/'', Directory), (''/d'', Directory),
      (''/d/00000000000000000000.wal'',
       File [0, 0, 0, 0, 0, 0, 0, 0, 0, 0, 0, 0, 1, 0, 0, 0, 0, 0, 0, 0, 1, 0, 0, 0, 0, 255, 255,
             0, 0, 0, 0, 0, 0, 0, 0]),
      (''/d/config.json'',
       File [1, 0, 0, 0, 0, 0, 0, 0, 0, 0, 0, 0, 0, 0, 0, 0, 0, 0, 0, 0, 0, 0, 0, 0, 0, 0, 0, 0,
             0, 0, 0, 0])]"

text \<open>
  The states of a Reader over a log whose segments hold the entry lists \<open>mss\<close>: the Reader's
  own copy of segment \<open>j\<close>, as \<open>loadSegment\<close> and \<open>open\<close> give it, with its file offset
  after the first \<open>k\<close> entries; the Reader at that place; and \<open>n\<close> successive calls of \<open>Next\<close>.
\<close>

definition reader_seg :: "Wal \<Rightarrow> Entry list list \<Rightarrow> nat \<Rightarrow> nat \<Rightarrow> segment" where
  "reader_seg wal mss j k =
     (loaded (path (segments wal ! j)) (firstIndex (segments wal ! j)) (mss ! j))
       \<lparr>fhandle := Some \<lparr>h_path = path (segments wal ! j),
                          h_pos = length (seg_bytes (take k (mss ! j)))\<rparr>\<rparr>"

definition reader_pos :: "Wal \<Rightarrow> Entry list list \<Rightarrow> Time \<Rightarrow> nat \<Rightarrow> nat \<Rightarrow> Reader" where
  "reader_pos wal mss t j k =
     \<lparr>r_index = of_nat (length (concat (take j mss)) + k), r_timestamp = t,
      r_current = Some (reader_seg wal mss j k)\<rparr>"

fun Nexts :: "nat \<Rightarrow> Wal \<Rightarrow> fs \<Rightarrow> Reader \<Rightarrow> (error + Entry) list \<times> Reader" where
  "Nexts 0 wal fs r = ([], r)"
| "Nexts (Suc n) wal fs r =
     (case Next wal fs r of
        (x, r') \<Rightarrow> (case Nexts n wal fs r' of (xs, r'') \<Rightarrow> (x # xs, r'')))"

definition example_reader0 :: Reader where
  "example_reader0 =
     \<lparr>r_index = 0, r_timestamp = zeroTime,
      r_current = Some \<lparr>firstIndex = 0, lastIndex = 0, firstTimestamp = zeroTime,
                        lastTimestamp = zeroTime, path = ''/d/00000000000000000000.wal'',
                        fhandle = Some \<lparr>h_path = ''/d/00000000000000000000.wal'', h_pos = 0\<rparr>,
                        fileLength = 0\<rparr>\<rparr>"


text \<open>
  A stand-in for \<open>filepath.Glob\<close> on patterns whose only special character is \<open>*\<close>: the
  existing paths that match the pattern, where \<open>*\<close> stands for any run of characters other
  than the separator.
\<close>

fun star_match :: "string \<Rightarrow> string \<Rightarrow> bool" where
  "star_match [] s = (s = [])"
| "star_match (c # p) [] = (c = CHR ''*'' \<and> star_match p [])"
| "star_match (c # p) (x # xs) =
     (if c = CHR ''*'' then star_match p (x # xs) \<or> (x \<noteq> CHR ''/'' \<and> star_match (c # p) xs)
      else x = c \<and> star_match p xs)"

definition example_Glob :: "fs \<Rightarrow> string \<Rightarrow> error + string list" where
  "example_Glob fs pattern = Inr (filter (star_match pattern) (remdups (map fst fs)))"

text \<open>
  More states of the closed examples.  The log and directory that \<open>cycle\<close> leaves when the
  one-entry example log is full, before the next entry is written: the new active segment is
  still empty; and the Reader that \<open>WithIndex 9\<close> opens on it.
\<close>

definition example_wal_cycled :: Wal where
  "example_wal_cycled =
     \<lparr>wal_path = ''/d'', current = Some 1,
      segments = [\<lparr>firstIndex = 0, lastIndex = 0, firstTimestamp = example_time 1,
                   lastTimestamp = example_time 1, path = ''/d/00000000000000000000.wal'',
                   fhandle = None, fileLength = 35\<rparr>,
                  \<lparr>firstIndex = 1, lastIndex = 1, firstTimestamp = zeroTime,
                   lastTimestamp = zeroTime, path = ''/d/00000000000000000001.wal'',
                   fhandle = Some \<lparr>h_path = ''/d/00000000000000000001.wal'', h_pos = 0\<rparr>,
                   fileLength = 0\<rparr>],
      config = \<lparr>MaxSegmentSize = 1, MaxSegmentCount = 0, ExpirationTime = 0,
                ExpirationInterval = 0\<rparr>,
      index = 1\<rparr>"

definition example_fs_cycled :: fs where
  "example_fs_cycled =
     [(''/'', Directory), (''/d'', Directory),
      (''/d/00000000000000000000.wal'',
       File [0, 0, 0, 0, 0, 0, 0, 0, 0, 0, 0, 0, 1, 0, 0, 0, 0, 0, 0, 0, 1, 0, 0, 0, 0, 255, 255,
             0, 0, 0, 0, 0, 0, 0, 0]),
      (''/d/config.json'',
       File [1, 0, 0, 0, 0, 0, 0, 0, 0, 0, 0, 0, 0, 0, 0, 0, 0, 0, 0, 0, 0, 0, 0, 0, 0, 0, 0, 0,
             0, 0, 0, 0]),
      (''/d/00000000000000000001.wal'', File [])]"

definition example_reader_cycled :: Reader where
  "example_reader_cycled =
     \<lparr>r_index = 1, r_timestamp = zeroTime,
      r_current = Some \<lparr>firstIndex = 1, lastIndex = 1, firstTimestamp = zeroTime,
                        lastTimestamp = zeroTime, path = ''/d/00000000000000000001.wal'',
                        fhandle = Some \<lparr>h_path = ''/d/00000000000000000001.wal'', h_pos = 0\<rparr>,
                        fileLength = 0\<rparr>\<rparr>"

text \<open>
  The example log after two appends of empty payloads, at seconds 1 and 3: with
  \<open>MaxSegmentSize = 1\<close> each entry has a segment of its own; and the Reader that
  \<open>WithTimestamp\<close> of second 2 opens on it.
\<close>

definition example_wal2 :: Wal where
  "example_wal2 =
     \<lparr>wal_path = ''/d'', current = Some 1,
      segments = [\<lparr>firstIndex = 0, lastIndex = 0, firstTimestamp = example_time 1,
                   lastTimestamp = example_time 1, path = ''/d/00000000000000000000.wal'',
                   fhandle = None, fileLength = 35\<rparr>,
                  \<lparr>firstIndex = 1, lastIndex = 1, firstTimestamp = example_time 3,
                   lastTimestamp = example_time 3, path = ''/d/00000000000000000001.wal'',
                   fhandle = Some \<lparr>h_path = ''/d/00000000000000000001.wal'', h_pos = 35\<rparr>,
                   fileLength = 35\<rparr>],
      config = \<lparr>MaxSegmentSize = 1, MaxSegmentCount = 0, ExpirationTime = 0,
                ExpirationInterval = 0\<rparr>,
      index = 2\<rparr>"

definition example_fs2 :: fs where
  "example_fs2 =
     [(''/'', Directory), (''/d'', Directory),
      (''/d/00000000000000000000.wal'',
       File [0, 0, 0, 0, 0, 0, 0, 0, 0, 0, 0, 0, 1, 0, 0, 0, 0, 0, 0, 0, 1, 0, 0, 0, 0, 255, 255,
             0, 0, 0, 0, 0, 0, 0, 0]),
      (''/d/config.json'',
       File [1, 0, 0, 0, 0, 0, 0, 0, 0, 0, 0, 0, 0, 0, 0, 0, 0, 0, 0, 0, 0, 0, 0, 0, 0, 0, 0, 0,
             0, 0, 0, 0]),
      (''/d/00000000000000000001.wal'',
       File [1, 0, 0, 0, 0, 0, 0, 0, 0, 0, 0, 0, 1, 0, 0, 0, 0, 0, 0, 0, 3, 0, 0, 0, 0, 255, 255,
             0, 0, 0, 0, 0, 0, 0, 0])]"







text \<open>The paths that the loop of \<open>Load\<close> loads: regular files with the extension \<open>.wal\<close>.\<close>

definition is_segment_file :: "fs \<Rightarrow> string \<Rightarrow> bool" where
  "is_segment_file fs p \<longleftrightarrow> (\<exists>bs. map_of fs p = Some (File bs)) \<and> Ext (Base p) = ''.wal''"

text \<open>The two-entry example log after \<open>Close\<close>.\<close>

definition example_wal2_closed :: Wal where
  "example_wal2_closed =
     \<lparr>wal_path = ''/d'', current = Some 1,
      segments = [\<lparr>firstIndex = 0, lastIndex = 0, firstTimestamp = example_time 1,
                   lastTimestamp = example_time 1, path = ''/d/00000000000000000000.wal'',
                   fhandle = None, fileLength = 35\<rparr>,
                  \<lparr>firstIndex = 1, lastIndex = 1, firstTimestamp = example_time 3,
                   lastTimestamp = example_time 3, path = ''/d/00000000000000000001.wal'',
                   fhandle = None, fileLength = 35\<rparr>],
      config = \<lparr>MaxSegmentSize = 1, MaxSegmentCount = 0, ExpirationTime = 0,
                ExpirationInterval = 0\<rparr>,
      index = 2\<rparr>"

text \<open>
  A log in a directory whose name holds a \<open>*\<close>, next to another log: the log and file system
  that \<open>New\<close> leaves for \<open>/dx\<close>, then for \<open>/d*\<close>; after one entry is written to \<open>/d*\<close>; after
  \<open>Close\<close>; and what \<open>Load\<close> of \<open>/d*\<close> returns then.
\<close>

definition example_sibling_wal :: Wal where
  "example_sibling_wal =
     \<lparr>wal_path = ''/dx'', current = Some 0,
      segments = [\<lparr>firstIndex = 0, lastIndex = 0, firstTimestamp = zeroTime,
                   lastTimestamp = zeroTime, path = ''/dx/00000000000000000000.wal'',
                   fhandle = Some \<lparr>h_path = ''/dx/00000000000000000000.wal'', h_pos = 0\<rparr>,
                   fileLength = 0\<rparr>],
      config = \<lparr>MaxSegmentSize = 0, MaxSegmentCount = 0, ExpirationTime = 0,
                ExpirationInterval = 0\<rparr>,
      index = 0\<rparr>"

definition example_sibling_fs :: fs where
  "example_sibling_fs =
     [(''/'', Directory), (''/dx'', Directory),
      (''/dx/00000000000000000000.wal'', File []),
      (''/dx/config.json'', File (replicate 32 0))]"

definition example_star_wal0 :: Wal where
  "example_star_wal0 =
     \<lparr>wal_path = ''/d*'', current = Some 0,
      segments = [\<lparr>firstIndex = 0, lastIndex = 0, firstTimestamp = zeroTime,
                   lastTimestamp = zeroTime, path = ''/d*/00000000000000000000.wal'',
                   fhandle = Some \<lparr>h_path = ''/d*/00000000000000000000.wal'', h_pos = 0\<rparr>,
                   fileLength = 0\<rparr>],
      config = \<lparr>MaxSegmentSize = 1, MaxSegmentCount = 0, ExpirationTime = 0,
                ExpirationInterval = 0\<rparr>,
      index = 0\<rparr>"

definition example_star_fs0 :: fs where
  "example_star_fs0 =
     [(''/'', Directory), (''/dx'', Directory),
      (''/dx/00000000000000000000.wal'', File []),
      (''/dx/config.json'', File (replicate 32 0)),
      (''/d*'', Directory),
      (''/d*/00000000000000000000.wal'', File []),
      (''/d*/config.json'', File (1 # replicate 31 0))]"

definition example_star_wal1 :: Wal where
  "example_star_wal1 =
     \<lparr>wal_path = ''/d*'', current = Some 0,
      segments = [\<lparr>firstIndex = 0, lastIndex = 0, firstTimestamp = example_time 1,
                   lastTimestamp = example_time 1, path = ''/d*/00000000000000000000.wal'',
                   fhandle = Some \<lparr>h_path = ''/d*/00000000000000000000.wal'', h_pos = 35\<rparr>,
                   fileLength = 35\<rparr>],
      config = \<lparr>MaxSegmentSize = 1, MaxSegmentCount = 0, ExpirationTime = 0,
                ExpirationInterval = 0\<rparr>,
      index = 1\<rparr>"

definition example_star_fs1 :: fs where
  "example_star_fs1 =
     [(''/'', Directory), (''/dx'', Directory),
      (''/dx/00000000000000000000.wal'', File []),
      (''/dx/config.json'', File (replicate 32 0)),
      (''/d*'', Directory),
      (''/d*/00000000000000000000.wal'',
       File [0, 0, 0, 0, 0, 0, 0, 0, 0, 0, 0, 0, 1, 0, 0, 0, 0, 0, 0, 0, 1, 0, 0, 0, 0, 255, 255,
             0, 0, 0, 0, 0, 0, 0, 0]),
      (''/d*/config.json'', File (1 # replicate 31 0))]"

definition example_star_closed :: Wal where
  "example_star_closed =
     \<lparr>wal_path = ''/d*'', current = Some 0,
      segments = [\<lparr>firstIndex = 0, lastIndex = 0, firstTimestamp = example_time 1,
                   lastTimestamp = example_time 1, path = ''/d*/00000000000000000000.wal'',
                   fhandle = None, fileLength = 35\<rparr>],
      config = \<lparr>MaxSegmentSize = 1, MaxSegmentCount = 0, ExpirationTime = 0,
                ExpirationInterval = 0\<rparr>,
      index = 1\<rparr>"

definition example_star_loaded :: Wal where
  "example_star_loaded =
     \<lparr>wal_path = ''/d*'', current = Some 1,
      segments = [\<lparr>firstIndex = 0, lastIndex = 0, firstTimestamp = example_time 1,
                   lastTimestamp = example_time 1, path = ''/d*/00000000000000000000.wal'',
                   fhandle = None, fileLength = 35\<rparr>,
                  \<lparr>firstIndex = 0, lastIndex = 0, firstTimestamp = zeroTime,
                   lastTimestamp = zeroTime, path = ''/dx/00000000000000000000.wal'',
                   fhandle = Some \<lparr>h_path = ''/dx/00000000000000000000.wal'', h_pos = 0\<rparr>,
                   fileLength = 0\<rparr>],
      config = \<lparr>MaxSegmentSize = 1, MaxSegmentCount = 0, ExpirationTime = 0,
                ExpirationInterval = 0\<rparr>,
      index = 0\<rparr>"


section \<open>The codec\<close>

lemma byte_split: "ucast (ucast w :: byte) OR push_bit 8 (drop_bit 8 w) = (w :: 'a::len word)"
proof (rule bit_word_eqI)
  fix n assume "n < LENGTH('a)"
  have "n < 8 \<or> 8 + (n - 8) = n" by arith
  then show "bit (ucast (ucast w :: byte) OR push_bit 8 (drop_bit 8 w)) n = bit w n"
    by (auto simp add: bit_simps dest: bit_imp_le_length)
qed

lemma byte_top16: "ucast (ucast (drop_bit 8 v) :: byte) = drop_bit 8 (v :: 16 word)"
  by (rule bit_word_eqI) (auto simp add: bit_simps dest: bit_imp_le_length)

lemma byte_top32: "ucast (ucast (drop_bit 24 v) :: byte) = drop_bit 24 (v :: uint32)"
  by (rule bit_word_eqI) (auto simp add: bit_simps dest: bit_imp_le_length)

lemma byte_top64: "ucast (ucast (drop_bit 56 v) :: byte) = drop_bit 56 (v :: uint64)"
  by (rule bit_word_eqI) (auto simp add: bit_simps dest: bit_imp_le_length)

lemma drop_bit_8_step: "drop_bit (8 + n) v = drop_bit 8 (drop_bit n (v :: 'a::len word))"
  by (simp add: drop_bit_drop_bit add.commute)

lemma le32_dec_le32 [simp]: "le32_dec (le32 v) = v"
proof -
  have d24: "drop_bit 24 v = drop_bit 8 (drop_bit 16 v)" and d16: "drop_bit 16 v = drop_bit 8 (drop_bit 8 v)"
    by (simp_all add: drop_bit_drop_bit)
  have "le32_dec (le32 v) = ucast (ucast v :: byte) OR push_bit 8 (ucast (ucast (drop_bit 8 v) :: byte) OR push_bit 8
     (ucast (ucast (drop_bit 16 v) :: byte) OR push_bit 8 (ucast (ucast (drop_bit 24 v) :: byte))))"
    unfolding le32_dec_def le32_def foldr.simps o_def by simp
  also have "\<dots> = v"
    apply (subst byte_top32)
    apply (subst d24, subst byte_split)
    apply (subst d16, subst byte_split)
    apply (rule byte_split)
    done
  finally show ?thesis .
qed

lemma le64_dec_le64 [simp]: "le64_dec (le64 v) = v"
proof -
  have d56: "drop_bit 56 v = drop_bit 8 (drop_bit 48 v)" and d48: "drop_bit 48 v = drop_bit 8 (drop_bit 40 v)"
    and d40: "drop_bit 40 v = drop_bit 8 (drop_bit 32 v)" and d32: "drop_bit 32 v = drop_bit 8 (drop_bit 24 v)"
    and d24: "drop_bit 24 v = drop_bit 8 (drop_bit 16 v)" and d16: "drop_bit 16 v = drop_bit 8 (drop_bit 8 v)"
    by (simp_all add: drop_bit_drop_bit)
  have "le64_dec (le64 v) = ucast (ucast v :: byte) OR push_bit 8 (ucast (ucast (drop_bit 8 v) :: byte) OR push_bit 8
     (ucast (ucast (drop_bit 16 v) :: byte) OR push_bit 8 (ucast (ucast (drop_bit 24 v) :: byte) OR push_bit 8
     (ucast (ucast (drop_bit 32 v) :: byte) OR push_bit 8 (ucast (ucast (drop_bit 40 v) :: byte) OR push_bit 8
     (ucast (ucast (drop_bit 48 v) :: byte) OR push_bit 8 (ucast (ucast (drop_bit 56 v) :: byte))))))))"
    unfolding le64_dec_def le64_def foldr.simps o_def by simp
  also have "\<dots> = v"
    apply (subst byte_top64)
    apply (subst d56, subst byte_split)
    apply (subst d48, subst byte_split)
    apply (subst d40, subst byte_split)
    apply (subst d32, subst byte_split)
    apply (subst d24, subst byte_split)
    apply (subst d16, subst byte_split)
    apply (rule byte_split)
    done
  finally show ?thesis .
qed

lemma be16_dec_be16 [simp]: "be16_dec (be16 v) = v"
proof -
  have "be16_dec (be16 v) = ucast (ucast v :: byte) OR push_bit 8 (ucast (ucast (drop_bit 8 v) :: byte))"
    unfolding be16_dec_def be16_def rev_rev_ident foldr.simps o_def by simp
  also have "\<dots> = v"
    by (subst byte_top16) (rule byte_split)
  finally show ?thesis .
qed

lemma be32_dec_be32 [simp]: "be32_dec (be32 v) = v"
  by (simp add: be32_dec_def be32_def)

lemma be64_dec_be64 [simp]: "be64_dec (be64 v) = v"
  by (simp add: be64_dec_def be64_def)

lemma length_le32 [simp]: "length (le32 v) = 4" by (simp add: le32_def)
lemma length_le64 [simp]: "length (le64 v) = 8" by (simp add: le64_def)
lemma length_be16 [simp]: "length (be16 v) = 2" by (simp add: be16_def)
lemma length_be32 [simp]: "length (be32 v) = 4" by (simp add: be32_def)
lemma length_be64 [simp]: "length (be64 v) = 8" by (simp add: be64_def)

lemma length_time_bytes [simp]: "length (time_bytes t) = 15"
  by (simp add: time_bytes_def)

lemma MarshalBinary_In_UTC [simp]: "MarshalBinary (In_UTC t) = Inr (time_bytes t)"
  by (simp add: MarshalBinary_def In_UTC_def time_bytes_def)

lemma UnmarshalBinary_time_bytes [simp]: "UnmarshalBinary (time_bytes t) = Inr (In_UTC t)"
  by (simp add: UnmarshalBinary_def time_bytes_def In_UTC_def)

lemma entry_buffer_eq [simp]: "entry_buffer m = Inr (entry_bytes m)"
  by (simp add: entry_buffer_def entry_bytes_def)

lemma length_entry_bytes [simp]: "length (entry_bytes m) = 35 + length (Data m)"
  by (simp add: entry_bytes_def)

lemma read_full_ok:
  "s_pos r + n \<le> length (s_buf r) \<Longrightarrow>
   read_full n r = (Inr (take n (drop (s_pos r) (s_buf r))), r\<lparr>s_pos := s_pos r + n\<rparr>)"
  by (simp add: read_full_def)

lemma read_full_at:
  assumes "s_buf r = pre @ xs @ post" "s_pos r = length pre" "length xs = n"
  shows "read_full n r = (Inr xs, r\<lparr>s_pos := length pre + n\<rparr>)"
  using assms by (simp add: read_full_ok)

lemma readEntry_at:
  assumes buf: "s_buf r = pre @ entry_bytes m @ post"
    and pos: "s_pos r = length pre"
    and len: "unat (Length m) = length (Data m)"
    and crc: "Crc32 m = Checksum (Data m)"
  shows "readEntry r = (Inr (stored m), r\<lparr>s_pos := length pre + length (entry_bytes m)\<rparr>)"
proof -
  let ?t = "time_bytes (Timestamp m)"
  let ?r1 = "r\<lparr>s_pos := length pre + 8\<rparr>"
  let ?r2 = "r\<lparr>s_pos := length pre + 12\<rparr>"
  let ?r3 = "r\<lparr>s_pos := length pre + 12 + length (Data m)\<rparr>"
  let ?r4 = "r\<lparr>s_pos := length pre + 27 + length (Data m)\<rparr>"
  let ?r5 = "r\<lparr>s_pos := length pre + 31 + length (Data m)\<rparr>"
  let ?r6 = "r\<lparr>s_pos := length pre + 35 + length (Data m)\<rparr>"
  have 1: "read_full 8 r = (Inr (le64 (Index m)), ?r1)"
    by (rule read_full_at [where post = "le32 (Length m) @ Data m @ ?t @ le32 (Crc32 m) @ le32 (Length m) @ post"])
       (simp_all add: buf pos entry_bytes_def)
  have 2: "read_full 4 ?r1 = (Inr (le32 (Length m)), ?r2)"
    using read_full_at [where r = ?r1 and pre = "pre @ le64 (Index m)" and xs = "le32 (Length m)" and n = 4
        and post = "Data m @ ?t @ le32 (Crc32 m) @ le32 (Length m) @ post"]
    by (simp add: buf entry_bytes_def)
  have 3: "read_full (length (Data m)) ?r2 = (Inr (Data m), ?r3)"
    using read_full_at [where r = ?r2 and pre = "pre @ le64 (Index m) @ le32 (Length m)" and xs = "Data m"
        and n = "length (Data m)" and post = "?t @ le32 (Crc32 m) @ le32 (Length m) @ post"]
    by (simp add: buf entry_bytes_def add.assoc)
  have 4: "read_full 15 ?r3 = (Inr ?t, ?r4)"
    using read_full_at [where r = ?r3 and pre = "pre @ le64 (Index m) @ le32 (Length m) @ Data m" and xs = "?t"
        and n = 15 and post = "le32 (Crc32 m) @ le32 (Length m) @ post"]
    by (simp add: buf entry_bytes_def add.assoc)
  have 5: "read_full 4 ?r4 = (Inr (le32 (Crc32 m)), ?r5)"
    using read_full_at [where r = ?r4 and pre = "pre @ le64 (Index m) @ le32 (Length m) @ Data m @ ?t"
        and xs = "le32 (Crc32 m)" and n = 4 and post = "le32 (Length m) @ post"]
    by (simp add: buf entry_bytes_def add.assoc)
  have 6: "read_full 4 ?r5 = (Inr (le32 (Length m)), ?r6)"
    using read_full_at [where r = ?r5 and pre = "pre @ le64 (Index m) @ le32 (Length m) @ Data m @ ?t @ le32 (Crc32 m)"
        and xs = "le32 (Length m)" and n = 4 and post = post]
    by (simp add: buf entry_bytes_def add.assoc)
  have 7: "?r6 = r\<lparr>s_pos := length pre + length (entry_bytes m)\<rparr>"
    by simp
  show ?thesis
    unfolding readEntry_def
    apply (simp only: 1 2 3 4 5 6 prod.case sum.case le32_dec_le32 le64_dec_le64 len
        UnmarshalBinary_time_bytes)
    apply (simp only: 7)
    using crc apply (cases m)
    apply (simp add: stored_def)
    done
qed

lemma readEntry_EOF:
  "length (s_buf r) \<le> s_pos r \<Longrightarrow> readEntry r = (Inl EOF, r)"
  by (simp add: readEntry_def read_full_def)

lemma gotoPreviousEntry_zero:
  "s_pos r = 0 \<Longrightarrow> gotoPreviousEntry r = (Some ErrNoPreviousEntry, r)"
  by (simp add: gotoPreviousEntry_def)

lemma gotoPreviousEntry_at:
  assumes buf: "s_buf r = pre @ entry_bytes m @ post"
    and pos: "s_pos r = length pre + length (entry_bytes m)"
    and len: "unat (Length m) = length (Data m)"
  shows "gotoPreviousEntry r =
     (if int (length pre) + 35 + int (length (Data m)) < uint (Length m + 35)
      then (Some ErrInvalid, r)
      else (None, r\<lparr>s_pos := nat (int (length pre) + 35 + int (length (Data m)) - uint (Length m + 35))\<rparr>))"
proof -
  let ?t = "time_bytes (Timestamp m)"
  let ?r1 = "r\<lparr>s_pos := length pre + 31 + length (Data m)\<rparr>"
  have 1: "Seek_Current (- 4) r = (Inr (length pre + 31 + length (Data m)), ?r1)"
    by (simp add: Seek_Current_def pos nat_diff_distrib)
  have 2: "read_full 4 ?r1 = (Inr (le32 (Length m)), r\<lparr>s_pos := length pre + 35 + length (Data m)\<rparr>)"
    using read_full_at [where r = ?r1 and pre = "pre @ le64 (Index m) @ le32 (Length m) @ Data m @ ?t @ le32 (Crc32 m)"
        and xs = "le32 (Length m)" and n = 4 and post = post]
    by (simp add: buf entry_bytes_def add.assoc)
  have 3: "r\<lparr>s_pos := length pre + 35 + length (Data m)\<rparr> = r"
    using pos by simp
  have 4: "s_pos r \<noteq> 0"
    using pos by simp
  have 5: "(of_nat ConstEntrySize :: uint32) = 35"
    by (simp add: ConstEntrySize_def)
  show ?thesis
    unfolding gotoPreviousEntry_def
    apply (simp only: 4 if_False 1 2 3 prod.case sum.case le32_dec_le32 5)
    apply (simp add: Seek_Current_def pos)
    done
qed

lemma In_UTC_id: "t_loc t = UTC \<Longrightarrow> In_UTC t = t"
  by (cases t) (simp add: In_UTC_def)

lemma stored_id: "t_loc (Timestamp m) = UTC \<Longrightarrow> stored m = m"
  by (simp add: stored_def In_UTC_id)


lemma read_full_Inr:
  assumes "read_full n r = (Inr bs, r')"
  shows "bs = take n (drop (s_pos r) (s_buf r))" and "length bs = n"
    and "s_buf r' = s_buf r" and "s_pos r' = s_pos r + n"
  using assms by (auto simp: read_full_def split: if_splits)

lemma readEntry_InrE:
  assumes "readEntry r = (Inr m, r')"
  obtains bI bL d tb t bC bT r1 r2 r3 r4 r5 where
    "read_full 8 r = (Inr bI, r1)" "read_full 4 r1 = (Inr bL, r2)"
    "read_full (unat (le32_dec bL)) r2 = (Inr d, r3)" "read_full 15 r3 = (Inr tb, r4)"
    "UnmarshalBinary tb = Inr t" "read_full 4 r4 = (Inr bC, r5)" "read_full 4 r5 = (Inr bT, r')"
    "Checksum d = le32_dec bC"
    "m = \<lparr>Index = le64_dec bI, Length = le32_dec bT, Data = d, Timestamp = t, Crc32 = le32_dec bC\<rparr>"
  using assms unfolding readEntry_def
  by (auto split: prod.splits sum.splits if_splits)

lemma readEntry_Inr:
  assumes "readEntry r = (Inr m, r')"
  shows "Crc32 m = Checksum (Data m)"
    and "length (Data m) = unat (le32_dec (take 4 (drop (s_pos r + 8) (s_buf r))))"
    and "Length m = le32_dec (take 4 (drop (s_pos r + 31 + length (Data m)) (s_buf r)))"
proof -
  from assms obtain bI bL d tb t bC bT r1 r2 r3 r4 r5 where
    1: "read_full 8 r = (Inr bI, r1)" and 2: "read_full 4 r1 = (Inr bL, r2)"
    and 3: "read_full (unat (le32_dec bL)) r2 = (Inr d, r3)" and 4: "read_full 15 r3 = (Inr tb, r4)"
    and 5: "read_full 4 r4 = (Inr bC, r5)" and 6: "read_full 4 r5 = (Inr bT, r')"
    and c: "Checksum d = le32_dec bC"
    and m: "m = \<lparr>Index = le64_dec bI, Length = le32_dec bT, Data = d, Timestamp = t, Crc32 = le32_dec bC\<rparr>"
    by (rule readEntry_InrE)
  have ld: "length d = unat (le32_dec bL)" using read_full_Inr(2) [OF 3] by simp
  have b1: "s_buf r1 = s_buf r" "s_pos r1 = s_pos r + 8"
    using read_full_Inr(3,4) [OF 1] by simp_all
  have b2: "s_buf r2 = s_buf r" "s_pos r2 = s_pos r + 12"
    using read_full_Inr(3,4) [OF 2] b1 by simp_all
  have b3: "s_buf r3 = s_buf r" "s_pos r3 = s_pos r + 12 + length d"
    using read_full_Inr(3,4) [OF 3] b2 ld by simp_all
  have b4: "s_buf r4 = s_buf r" "s_pos r4 = s_pos r + 27 + length d"
    using read_full_Inr(3,4) [OF 4] b3 by simp_all
  have b5: "s_buf r5 = s_buf r" "s_pos r5 = s_pos r + 31 + length d"
    using read_full_Inr(3,4) [OF 5] b4 by simp_all
  show "Crc32 m = Checksum (Data m)" using c m by simp
  have "bL = take 4 (drop (s_pos r + 8) (s_buf r))" using read_full_Inr(1) [OF 2] b1 by simp
  then show "length (Data m) = unat (le32_dec (take 4 (drop (s_pos r + 8) (s_buf r))))"
    using m ld by simp
  have "bT = take 4 (drop (s_pos r + 31 + length d) (s_buf r))" using read_full_Inr(1) [OF 6] b5 by simp
  then show "Length m = le32_dec (take 4 (drop (s_pos r + 31 + length (Data m)) (s_buf r)))"
    using m by simp
qed

lemma readEntry_mismatch:
  assumes buf: "s_buf r = pre @ le64 i @ le32 l @ d @ tb @ le32 c @ le32 l' @ post"
    and pos: "s_pos r = length pre"
    and len: "length d = unat l" "length tb = 15"
    and ts: "UnmarshalBinary tb = Inr t"
    and crc: "c \<noteq> Checksum d"
  shows "fst (readEntry r) = Inl ErrCrc32Mismatch"
proof -
  let ?r1 = "r\<lparr>s_pos := length pre + 8\<rparr>"
  let ?r2 = "r\<lparr>s_pos := length pre + 12\<rparr>"
  let ?r3 = "r\<lparr>s_pos := length pre + 12 + length d\<rparr>"
  let ?r4 = "r\<lparr>s_pos := length pre + 27 + length d\<rparr>"
  let ?r5 = "r\<lparr>s_pos := length pre + 31 + length d\<rparr>"
  let ?r6 = "r\<lparr>s_pos := length pre + 35 + length d\<rparr>"
  have 1: "read_full 8 r = (Inr (le64 i), ?r1)"
    by (rule read_full_at [where post = "le32 l @ d @ tb @ le32 c @ le32 l' @ post"])
       (simp_all add: buf pos)
  have 2: "read_full 4 ?r1 = (Inr (le32 l), ?r2)"
    using read_full_at [where r = ?r1 and pre = "pre @ le64 i" and xs = "le32 l" and n = 4
        and post = "d @ tb @ le32 c @ le32 l' @ post"]
    by (simp add: buf)
  have 3: "read_full (length d) ?r2 = (Inr d, ?r3)"
    using read_full_at [where r = ?r2 and pre = "pre @ le64 i @ le32 l" and xs = d
        and n = "length d" and post = "tb @ le32 c @ le32 l' @ post"]
    by (simp add: buf add.assoc)
  have 4: "read_full 15 ?r3 = (Inr tb, ?r4)"
    using read_full_at [where r = ?r3 and pre = "pre @ le64 i @ le32 l @ d" and xs = tb
        and n = 15 and post = "le32 c @ le32 l' @ post"]
    by (simp add: buf len add.assoc)
  have 5: "read_full 4 ?r4 = (Inr (le32 c), ?r5)"
    using read_full_at [where r = ?r4 and pre = "pre @ le64 i @ le32 l @ d @ tb"
        and xs = "le32 c" and n = 4 and post = "le32 l' @ post"]
    by (simp add: buf len add.assoc)
  have 6: "read_full 4 ?r5 = (Inr (le32 l'), ?r6)"
    using read_full_at [where r = ?r5 and pre = "pre @ le64 i @ le32 l @ d @ tb @ le32 c"
        and xs = "le32 l'" and n = 4 and post = post]
    by (simp add: buf len add.assoc)
  show ?thesis
    unfolding readEntry_def
    apply (simp only: 1 2 3 4 5 6 prod.case sum.case le32_dec_le32 le64_dec_le64 len(1) [symmetric] ts)
    using crc apply simp
    done
qed


section \<open>Termination of the loops\<close>

termination MkdirAll
  by (relation "measure (\<lambda>(fs, p). length p)") auto

lemma readEntry_advances:
  assumes "readEntry r = (Inr m, r')"
  shows "s_buf r' = s_buf r" and "s_pos r < s_pos r'" and "s_pos r' \<le> length (s_buf r)"
proof -
  from assms obtain bI bL d tb t bC bT r1 r2 r3 r4 r5 where
    1: "read_full 8 r = (Inr bI, r1)" and 2: "read_full 4 r1 = (Inr bL, r2)"
    and 3: "read_full (unat (le32_dec bL)) r2 = (Inr d, r3)" and 4: "read_full 15 r3 = (Inr tb, r4)"
    and 5: "read_full 4 r4 = (Inr bC, r5)" and 6: "read_full 4 r5 = (Inr bT, r')"
    by (rule readEntry_InrE)
  have b1: "s_buf r1 = s_buf r" "s_pos r1 = s_pos r + 8"
    using read_full_Inr(3,4) [OF 1] by simp_all
  have b2: "s_buf r2 = s_buf r" "s_pos r1 \<le> s_pos r2"
    using read_full_Inr(3,4) [OF 2] b1 by simp_all
  have b3: "s_buf r3 = s_buf r" "s_pos r2 \<le> s_pos r3"
    using read_full_Inr(3,4) [OF 3] b2 by simp_all
  have b4: "s_buf r4 = s_buf r" "s_pos r3 \<le> s_pos r4"
    using read_full_Inr(3,4) [OF 4] b3 by simp_all
  have b5: "s_buf r5 = s_buf r" "s_pos r4 \<le> s_pos r5"
    using read_full_Inr(3,4) [OF 5] b4 by simp_all
  show "s_buf r' = s_buf r"
    using read_full_Inr(3) [OF 6] b5 by simp
  show "s_pos r < s_pos r'"
    using read_full_Inr(4) [OF 6] b1 b2 b3 b4 b5 by simp
  show "s_pos r' \<le> length (s_buf r)"
    using 6 b5 by (auto simp: read_full_def split: if_splits)
qed

lemma readEntry_measure:
  assumes "(Inr m, r') = readEntry r"
  shows "length (s_buf r') - s_pos r' < length (s_buf r) - s_pos r"
  using readEntry_advances [OF assms [symmetric]] by simp

termination seek_index
  by (relation "measure (\<lambda>(target, i, r). length (s_buf r) - s_pos r)")
     (auto dest!: readEntry_measure)

termination seek_timestamp
  by (relation "measure (\<lambda>(target, t, i, r). length (s_buf r) - s_pos r)")
     (auto dest!: readEntry_measure)

declare MkdirAll.simps [simp del] seek_index.simps [simp del] seek_timestamp.simps [simp del]


section \<open>Segment files\<close>

lemma seg_bytes_simps [simp]:
  "seg_bytes [] = []" "seg_bytes (m # ms) = entry_bytes m @ seg_bytes ms"
  "seg_bytes (xs @ ys) = seg_bytes xs @ seg_bytes ys"
  by (simp_all add: seg_bytes_def)

lemma After_In_UTC [simp]: "After t (In_UTC u) = After t u" "After (In_UTC t) u = After t u"
  by (simp_all add: After_def In_UTC_def)

lemma Before_In_UTC [simp]: "Before t (In_UTC u) = Before t u" "Before (In_UTC t) u = Before t u"
  by (simp_all add: Before_def In_UTC_def)

lemma Equal_In_UTC [simp]: "Equal t (In_UTC u) = Equal t u" "Equal (In_UTC t) u = Equal t u"
  by (simp_all add: Equal_def In_UTC_def)

lemma stored_simps [simp]:
  "Index (stored m) = Index m" "Data (stored m) = Data m" "Length (stored m) = Length m"
  "Crc32 (stored m) = Crc32 m" "Timestamp (stored m) = In_UTC (Timestamp m)"
  by (simp_all add: stored_def)

lemma readEntry_wf:
  assumes "s_buf r = pre @ entry_bytes m @ post" "s_pos r = length pre" "wf_entry m"
  shows "readEntry r = (Inr (stored m), r\<lparr>s_pos := length pre + length (entry_bytes m)\<rparr>)"
  using assms by (intro readEntry_at) (simp_all add: wf_entry_def)

lemma gotoPreviousEntry_wf:
  assumes "s_buf r = pre @ entry_bytes m @ post" "s_pos r = length pre + length (entry_bytes m)"
    and "wf_entry m"
  shows "gotoPreviousEntry r = (None, r\<lparr>s_pos := length pre\<rparr>)"
proof -
  have l: "unat (Length m) = length (Data m)" and b: "length (Data m) + 35 < 2 ^ 32"
    using assms(3) by (simp_all add: wf_entry_def)
  have "unat (Length m + 35) = unat (Length m) + 35"
    using l b by (simp add: unat_word_ariths)
  then have u: "uint (Length m + 35) = int (length (Data m)) + 35"
    using l by (simp add: uint_nat)
  show ?thesis
    using gotoPreviousEntry_at [OF assms(1,2) l] by (simp add: u)
qed

lemma seek_index_scan:
  assumes "s_buf r = pre @ seg_bytes ms" "s_pos r = length pre" "\<forall>m \<in> set ms. wf_entry m"
  shows "seek_index target i r =
     Inr (fst (scan_index target i ms),
          r\<lparr>s_pos := length pre + length (seg_bytes (take (snd (scan_index target i ms)) ms))\<rparr>)"
  using assms
proof (induction ms arbitrary: pre i r)
  case Nil
  then show ?case
    using Nil(2) [symmetric] by (subst seek_index.simps) (simp add: readEntry_EOF)
next
  case (Cons m ms)
  let ?r' = "r\<lparr>s_pos := length pre + length (entry_bytes m)\<rparr>"
  have rd: "readEntry r = (Inr (stored m), ?r')"
    using Cons.prems by (intro readEntry_wf [where post = "seg_bytes ms"]) simp_all
  have ih: "seek_index target (Index m) ?r' =
     Inr (fst (scan_index target (Index m) ms),
          ?r'\<lparr>s_pos := length (pre @ entry_bytes m) + length (seg_bytes (take (snd (scan_index target (Index m) ms)) ms))\<rparr>)"
    using Cons.prems by (intro Cons.IH) simp_all
  show ?case
  proof (cases "target > i")
    case True
    then show ?thesis
      using ih by (subst seek_index.simps) (simp add: rd split: prod.splits)
  next
    case False
    then show ?thesis
      using Cons.prems(2) [symmetric] by (subst seek_index.simps) simp
  qed
qed

lemma seek_timestamp_scan:
  assumes "s_buf r = pre @ seg_bytes ms" "s_pos r = length pre" "\<forall>m \<in> set ms. wf_entry m"
  shows "seek_timestamp target t i r =
     Inr (fst (scan_timestamp target t i ms),
          r\<lparr>s_pos := length pre + length (seg_bytes (take (snd (scan_timestamp target t i ms)) ms))\<rparr>)"
  using assms
proof (induction ms arbitrary: pre t i r)
  case Nil
  then show ?case
    using Nil(2) [symmetric] by (subst seek_timestamp.simps) (simp add: readEntry_EOF)
next
  case (Cons m ms)
  let ?r' = "r\<lparr>s_pos := length pre + length (entry_bytes m)\<rparr>"
  have rd: "readEntry r = (Inr (stored m), ?r')"
    using Cons.prems by (intro readEntry_wf [where post = "seg_bytes ms"]) simp_all
  have ih: "seek_timestamp target (Timestamp m) (Index m) ?r' =
     Inr (fst (scan_timestamp target (Timestamp m) (Index m) ms),
          ?r'\<lparr>s_pos := length (pre @ entry_bytes m) + length (seg_bytes (take (snd (scan_timestamp target (Timestamp m) (Index m) ms)) ms))\<rparr>)"
    using Cons.prems by (intro Cons.IH) simp_all
  have sc: "scan_timestamp target (In_UTC (Timestamp m)) (Index m) ms = scan_timestamp target (Timestamp m) (Index m) ms"
    by (cases ms) simp_all
  have sk: "seek_timestamp target (In_UTC (Timestamp m)) (Index m) ?r' = seek_timestamp target (Timestamp m) (Index m) ?r'"
    by (subst seek_timestamp.simps, subst (2) seek_timestamp.simps) simp
  show ?case
  proof (cases "After target t")
    case True
    then show ?thesis
      using ih sk by (subst seek_timestamp.simps) (simp add: rd split: prod.splits)
  next
    case False
    then show ?thesis
      using Cons.prems(2) [symmetric] by (subst seek_timestamp.simps) simp
  qed
qed

lemma of_char_digit_char: "d < 10 \<Longrightarrow> (of_char (digit_char d) :: nat) = 48 + d"
  by (simp add: digit_char_def)

lemma digit_val_digit_char [simp]: "d < 10 \<Longrightarrow> digit_val (digit_char d) = int d"
  by (simp add: digit_val_def of_char_digit_char)

lemma is_digit_digit_char [simp]: "d < 10 \<Longrightarrow> is_digit (digit_char d)"
  by (simp add: is_digit_def less_eq_char_def of_char_digit_char)

lemma digit_char_less: "d < d' \<Longrightarrow> d' < 10 \<Longrightarrow> digit_char d < digit_char d'"
  by (simp add: less_char_def of_char_digit_char)

lemma digit_char_other:
  assumes "d < 10" and "(of_char c :: nat) < 48"
  shows "digit_char d \<noteq> c"
proof
  assume "digit_char d = c"
  then have "(of_char (digit_char d) :: nat) = of_char c" by simp
  then show False using of_char_digit_char [OF assms(1)] assms(2) by simp
qed

lemma digit_char_neq:
  assumes "d < 10"
  shows "digit_char d \<noteq> CHR ''/''" "digit_char d \<noteq> CHR ''.''" "digit_char d \<noteq> CHR '' ''"
    "digit_char d \<noteq> CHR 0x09" "digit_char d \<noteq> CHR 0x0D"
  by (rule digit_char_other [OF assms], simp)+

lemma not_is_digit_dot [simp]: "\<not> is_digit CHR ''.''"
  by (simp add: is_digit_def less_eq_char_def)

lemma length_decimal [simp]: "length (decimal k n) = k"
  by (induction k arbitrary: n) simp_all

lemma mod10_digit: "nat ((n::int) mod 10) < 10"
  by (simp add: nat_less_iff)

lemma decimal_digits: "c \<in> set (decimal k n) \<Longrightarrow> \<exists>d < 10. c = digit_char d"
proof (induction k arbitrary: n)
  case 0
  then show ?case by simp
next
  case (Suc k)
  then consider "c \<in> set (decimal k (n div 10))" | "c = digit_char (nat (n mod 10))"
    by auto
  then show ?case
  proof cases
    case 1
    then show ?thesis by (rule Suc.IH)
  next
    case 2
    then show ?thesis using mod10_digit by blast
  qed
qed

lemma decimal_all_digits: "\<forall>c \<in> set (decimal k n). is_digit c"
proof
  fix c assume "c \<in> set (decimal k n)"
  from decimal_digits [OF this] obtain d where "d < 10" "c = digit_char d" by blast
  then show "is_digit c" by simp
qed

lemma decimal_no_special:
  assumes "c \<in> set (decimal k n)"
  shows "c \<noteq> CHR ''/'' \<and> c \<noteq> CHR ''.'' \<and> c \<noteq> CHR '' '' \<and> c \<noteq> CHR 0x09 \<and> c \<noteq> CHR 0x0D"
proof -
  from decimal_digits [OF assms] obtain d where "d < 10" "c = digit_char d" by blast
  then show ?thesis using digit_char_neq [of d] by simp
qed

lemma decimal_val_snoc: "decimal_val (ds @ [c]) = 10 * decimal_val ds + digit_val c"
  by (simp add: decimal_val_def)

lemma decimal_val_decimal: "0 \<le> n \<Longrightarrow> decimal_val (decimal k n) = n mod 10 ^ k"
proof (induction k arbitrary: n)
  case 0
  then show ?case by (simp add: decimal_val_def)
next
  case (Suc k)
  have "decimal_val (decimal (Suc k) n) = 10 * ((n div 10) mod 10 ^ k) + n mod 10"
    using Suc.prems by (simp add: decimal_val_snoc Suc.IH mod10_digit)
  also have "\<dots> = n mod (10 * 10 ^ k)"
    by (rule zmod_zmult2_eq [symmetric]) simp
  finally show ?case by simp
qed

lemma uint64_lt_pow10: "uint (i :: uint64) < 10 ^ 20"
proof -
  have "uint i < 2 ^ LENGTH(64)" by (rule uint_lt2p)
  then show ?thesis by simp
qed

lemma takeWhile_digits_app:
  assumes "\<forall>c \<in> set ds. is_digit c"
  shows "takeWhile is_digit (ds @ ''.wal'' @ rest) = ds" "dropWhile is_digit (ds @ ''.wal'' @ rest) = ''.wal'' @ rest"
  using assms by (induction ds) simp_all

lemma Sscanf_Sprintf [simp]: "Sscanf_d_wal (Sprintf_020d_wal i) = Inr i"
proof -
  let ?ds = "decimal 20 (uint i)"
  have blank: "dropWhile (\<lambda>c. c = CHR '' '' \<or> c = CHR 0x09 \<or> c = CHR 0x0D) (?ds @ ''.wal'') = ?ds @ ''.wal''"
  proof (cases ?ds)
    case Nil
    then show ?thesis by simp
  next
    case (Cons c cs)
    then have "c \<in> set ?ds" by simp
    from decimal_no_special [OF this] show ?thesis
      using Cons by simp
  qed
  have tw: "takeWhile is_digit (?ds @ ''.wal'') = ?ds" "dropWhile is_digit (?ds @ ''.wal'') = ''.wal''"
    using takeWhile_digits_app [OF decimal_all_digits, of 20 "uint i" "[]"] by simp_all
  have ne: "?ds \<noteq> []"
    by (rule notI, drule arg_cong [where f = length]) simp
  have v: "decimal_val ?ds = uint i"
    using decimal_val_decimal [of "uint i" 20] uint64_lt_pow10 [of i] by simp
  have lt: "\<not> (2 ^ 64 \<le> uint i)"
    using uint_lt2p [of i] by simp
  show ?thesis
    unfolding Sscanf_d_wal_def Sprintf_020d_wal_def
    by (simp only: blank Let_def tw ne v lt if_False) simp
qed

lemma Sprintf_inj:
  assumes "Sprintf_020d_wal a = Sprintf_020d_wal b"
  shows "a = b"
proof -
  have "Sscanf_d_wal (Sprintf_020d_wal a) = Sscanf_d_wal (Sprintf_020d_wal b)"
    using assms by simp
  then show ?thesis by simp
qed

lemma Sprintf_no_slash: "CHR ''/'' \<notin> set (Sprintf_020d_wal i)"
  using decimal_no_special [of "CHR ''/''" 20 "uint i"] by (auto simp: Sprintf_020d_wal_def)

lemma Sprintf_not_Nil [simp]: "Sprintf_020d_wal i \<noteq> []"
  by (simp add: Sprintf_020d_wal_def)

lemma dropWhile_to_slash:
  "CHR ''/'' \<notin> set xs \<Longrightarrow> dropWhile (\<lambda>c. c \<noteq> CHR ''/'') (xs @ CHR ''/'' # ys) = CHR ''/'' # ys"
  by (induction xs) auto

lemma takeWhile_to_slash:
  "CHR ''/'' \<notin> set xs \<Longrightarrow> takeWhile (\<lambda>c. c \<noteq> CHR ''/'') (xs @ CHR ''/'' # ys) = xs"
  by (induction xs) auto

lemma dirname_Join: "d \<noteq> [] \<Longrightarrow> CHR ''/'' \<notin> set name \<Longrightarrow> dirname (Join d name) = d"
proof -
  assume d: "d \<noteq> []" and n: "CHR ''/'' \<notin> set name"
  have "dropWhile (\<lambda>c. c \<noteq> CHR ''/'') (rev name @ CHR ''/'' # rev d) = CHR ''/'' # rev d"
    using n by (intro dropWhile_to_slash) simp
  then show ?thesis
    using d by (simp add: dirname_def Join_def)
qed

lemma Base_Join: "name \<noteq> [] \<Longrightarrow> CHR ''/'' \<notin> set name \<Longrightarrow> Base (Join d name) = name"
proof -
  assume ne: "name \<noteq> []" and n: "CHR ''/'' \<notin> set name"
  obtain c cs where r: "rev name = c # cs"
    using ne by (cases "rev name") simp_all
  have c: "c \<noteq> CHR ''/''"
    using n r by (metis list.set_intros(1) set_rev)
  have 1: "dropWhile (\<lambda>c. c = CHR ''/'') (rev name @ CHR ''/'' # rev d) = rev name @ CHR ''/'' # rev d"
    using r c by simp
  have 2: "takeWhile (\<lambda>c. c \<noteq> CHR ''/'') (rev name @ CHR ''/'' # rev d) = rev name"
    using n by (intro takeWhile_to_slash) simp
  show ?thesis
    using ne by (simp add: Base_def Join_def 1 2)
qed

lemma Ext_wal [simp]: "Ext (Sprintf_020d_wal i) = ''.wal''"
  by (simp add: Ext_def Sprintf_020d_wal_def)

lemma Ext_config [simp]: "Ext ''config.json'' = ''.json''"
  by (simp add: Ext_def)

lemma Base_segment [simp]: "Base (Join d (Sprintf_020d_wal i)) = Sprintf_020d_wal i"
  by (simp add: Base_Join Sprintf_no_slash)

lemma dirname_segment [simp]: "d \<noteq> [] \<Longrightarrow> dirname (Join d (Sprintf_020d_wal i)) = d"
  by (simp add: dirname_Join Sprintf_no_slash)

lemma Join_inj [simp]: "Join d a = Join d b \<longleftrightarrow> a = b"
  by (simp add: Join_def)

lemma segment_path_inj [simp]:
  "Join d (Sprintf_020d_wal a) = Join d (Sprintf_020d_wal b) \<longleftrightarrow> a = b"
  using Sprintf_inj by auto

lemma config_not_segment [simp]: "Join d ''config.json'' \<noteq> Join d (Sprintf_020d_wal i)"
proof
  assume "Join d ''config.json'' = Join d (Sprintf_020d_wal i)"
  then have "''config.json'' = Sprintf_020d_wal i" by simp
  then have "Ext ''config.json'' = Ext (Sprintf_020d_wal i)" by simp
  then show False by simp
qed

lemma contents_File [simp]: "map_of fs p = Some (File bs) \<Longrightarrow> contents fs p = bs"
  by (simp add: contents_def)

lemma OpenFile_File [simp]:
  "map_of fs p = Some (File bs) \<Longrightarrow> OpenFile fs p = Inr \<lparr>h_path = p, h_pos = 0\<rparr>"
  by (simp add: OpenFile_def)

lemma readPreviousEntry_wf:
  assumes "s_buf r = pre @ entry_bytes m @ post" "s_pos r = length pre + length (entry_bytes m)"
    and "wf_entry m"
  shows "readPreviousEntry r = (Inr (stored m), r)"
proof -
  have g: "gotoPreviousEntry r = (None, r\<lparr>s_pos := length pre\<rparr>)"
    using assms by (rule gotoPreviousEntry_wf)
  have "readEntry (r\<lparr>s_pos := length pre\<rparr>)
      = (Inr (stored m), r\<lparr>s_pos := length pre\<rparr>\<lparr>s_pos := length pre + length (entry_bytes m)\<rparr>)"
    using assms by (intro readEntry_wf [where post = post]) simp_all
  then show ?thesis
    using assms(2) [symmetric] by (simp add: readPreviousEntry_def g)
qed

lemma loadSegment_loaded:
  assumes f: "map_of fs p = Some (File (seg_bytes ms))"
    and wf: "\<forall>m \<in> set ms. wf_entry m"
    and nm: "Sscanf_d_wal (Base p) = Inr b"
  shows "loadSegment fs p = Inr (loaded p b ms)"
proof (cases ms rule: rev_cases)
  case Nil
  have "readEntry \<lparr>s_buf = [], s_pos = 0\<rparr> = (Inl EOF, \<lparr>s_buf = [], s_pos = 0\<rparr>)"
    by (rule readEntry_EOF) simp
  then show ?thesis
    using f Nil by (simp add: loadSegment_def file_stream_def Seek_End_def nm loaded_def)
next
  case (snoc ms' l)
  then have "ms \<noteq> []" by simp
  then obtain m ms'' where c: "ms = m # ms''"
    by (cases ms) blast+
  let ?r = "\<lparr>s_buf = seg_bytes ms, s_pos = 0\<rparr>"
  let ?e = "\<lparr>s_buf = seg_bytes ms, s_pos = length (seg_bytes ms)\<rparr>"
  have 1: "readEntry ?r = (Inr (stored m), ?r\<lparr>s_pos := length ([] :: byte list) + length (entry_bytes m)\<rparr>)"
    using wf c by (intro readEntry_wf [where post = "seg_bytes ms''"]) simp_all
  have 2: "readPreviousEntry ?e = (Inr (stored l), ?e)"
    using wf snoc by (intro readPreviousEntry_wf [where pre = "seg_bytes ms'" and post = "[]"]) simp_all
  have pos: "0 < length (seg_bytes ms)"
    using c by simp
  have h1: "hd ms = m" "ms \<noteq> []"
    using c by simp_all
  have h2: "last ms = l"
    using snoc by simp
  note hl = h1 h2
  show ?thesis
    using f pos
    by (simp add: loadSegment_def file_stream_def 1 Seek_End_def nm 2 loaded_def hl)
qed


section \<open>The invariant of a log and its directory\<close>

lemma Write_unfold:
  "Write now wal fs message =
     (case current wal of
        None \<Rightarrow> (Some ErrNoSegmentsFound, wal, fs, [])
      | Some c \<Rightarrow>
          (case (if MaxSegmentSize (config wal) \<noteq> 0
                    \<and> fileLength (segments wal ! c) \<ge> MaxSegmentSize (config wal)
                 then cycle wal fs else (None, wal, fs, [])) of
             (Some e, wal1, fs1, tr) \<Rightarrow> (Some e, wal1, fs1, tr)
           | (None, wal1, fs1, tr) \<Rightarrow>
               (case append_current now wal1 fs1 message of
                  (err, wal2, fs2) \<Rightarrow> (err, wal2, fs2, tr))))"
  by (simp add: Write_def append_current_def split: option.splits prod.splits)

lemma log_entries_Nil [simp]: "log_entries [] = []"
  by (simp add: log_entries_def)

lemma log_entries_snoc:
  "log_entries (ws @ [(now, p)]) = log_entries ws @ [newMessage (of_nat (length ws)) p now]"
  by (simp add: log_entries_def)

lemma length_log_entries [simp]: "length (log_entries ws) = length ws"
  by (simp add: log_entries_def)

lemma log_entries_nth:
  "k < length ws \<Longrightarrow> log_entries ws ! k = newMessage (of_nat k) (snd (ws ! k)) (fst (ws ! k))"
  by (simp add: log_entries_def split: prod.splits)

lemma Index_log_entries: "k < length ws \<Longrightarrow> Index (log_entries ws ! k) = of_nat k"
  by (simp add: log_entries_nth newMessage_def)

lemma Data_log_entries: "map Data (log_entries ws) = map snd ws"
  by (rule nth_equalityI) (simp_all add: log_entries_nth newMessage_def)

lemma wf_newMessage: "length p + 35 < 2 ^ 32 \<Longrightarrow> wf_entry (newMessage i p now)"
  by (simp add: wf_entry_def newMessage_def unat_of_nat)

lemma wf_log_entries:
  assumes "fits ws" "m \<in> set (log_entries ws)"
  shows "wf_entry m"
proof -
  from assms(2) obtain k where k: "k < length ws" "m = log_entries ws ! k"
    by (metis in_set_conv_nth length_log_entries)
  have "ws ! k \<in> set ws" using k by simp
  then have "length (snd (ws ! k)) + 35 < 2 ^ 32"
    using assms(1) by (simp add: fits_def)
  then show ?thesis
    using k by (simp add: log_entries_nth wf_newMessage)
qed

lemma length_seg_bytes_log:
  "length (seg_bytes (log_entries ws)) = (\<Sum>w\<leftarrow>ws. 35 + length (snd w))"
proof (induction ws rule: rev_induct)
  case Nil
  then show ?case by simp
next
  case (snoc w ws)
  then show ?case
    by (cases w) (simp add: log_entries_snoc newMessage_def)
qed

lemma length_le_seg_bytes: "35 * length ms \<le> length (seg_bytes ms)"
  by (induction ms) simp_all

lemma fits_bytes: "fits ws \<Longrightarrow> length (seg_bytes (log_entries ws)) < 2 ^ 64"
  by (simp add: fits_def length_seg_bytes_log)

lemma fits_count: "fits ws \<Longrightarrow> length ws < 2 ^ 64"
  using fits_bytes [of ws] length_le_seg_bytes [of "log_entries ws"] by simp

lemma fits_snocD: "fits (ws @ [w]) \<Longrightarrow> fits ws \<and> length (snd w) + 35 < 2 ^ 32"
  by (simp add: fits_def)

lemma write_at_end [simp]: "write_at old (length old) p = old @ p"
  by (simp add: write_at_def)

lemma map_of_update [simp]: "map_of (AList.update k v al) = (map_of al)(k \<mapsto> v)"
  by (rule update_conv')

lemma Join_longer: "length dir < length (Join dir name)"
  by (simp add: Join_def)

lemma Join_neq_dir [simp]: "Join dir name \<noteq> dir" "dir \<noteq> Join dir name"
  using Join_longer [of dir name] by auto

lemma seg_invD:
  assumes "seg_inv fs dir s ms"
  shows "path s = Join dir (Sprintf_020d_wal (firstIndex s))"
    and "map_of fs (path s) = Some (File (seg_bytes ms))"
    and "lastIndex s = (if ms = [] then firstIndex s else Index (last ms))"
    and "firstTimestamp s = (if ms = [] then zeroTime else Timestamp (hd ms))"
    and "lastTimestamp s = (if ms = [] then zeroTime else Timestamp (last ms))"
    and "fileLength s = of_nat (length (seg_bytes ms))"
  using assms unfolding seg_inv_def by blast+

lemma seg_invI:
  assumes "path s = Join dir (Sprintf_020d_wal (firstIndex s))"
    and "map_of fs (path s) = Some (File (seg_bytes ms))"
    and "lastIndex s = (if ms = [] then firstIndex s else Index (last ms))"
    and "firstTimestamp s = (if ms = [] then zeroTime else Timestamp (hd ms))"
    and "lastTimestamp s = (if ms = [] then zeroTime else Timestamp (last ms))"
    and "fileLength s = of_nat (length (seg_bytes ms))"
  shows "seg_inv fs dir s ms"
  using assms unfolding seg_inv_def by blast

lemma seg_inv_frame:
  assumes "seg_inv fs dir s ms" "path s \<noteq> q"
  shows "seg_inv (AList.update q v fs) dir s ms"
proof (rule seg_invI)
  show "map_of (AList.update q v fs) (path s) = Some (File (seg_bytes ms))"
    using seg_invD(2) [OF assms(1)] assms(2) by simp
qed (rule seg_invD [OF assms(1)])+

lemma seg_inv_handle:
  assumes "seg_inv fs dir s ms"
  shows "seg_inv fs dir (s\<lparr>fhandle := h\<rparr>) ms"
  using seg_invD [OF assms] by (intro seg_invI) simp_all

lemma length_concat_take_mono:
  assumes "j < k" "k \<le> length mss" "mss ! j \<noteq> []"
  shows "length (concat (take j mss)) < length (concat (take k mss))"
proof -
  have j: "j < length mss" using assms by simp
  have "take k mss = take (j + (k - j)) mss" using assms(1) by simp
  also have "\<dots> = take j mss @ take (k - j) (drop j mss)" by (rule take_add)
  also have "drop j mss = mss ! j # drop (Suc j) mss"
    using j by (simp add: Cons_nth_drop_Suc)
  also have "take (k - j) (mss ! j # drop (Suc j) mss) = mss ! j # take (k - j - 1) (drop (Suc j) mss)"
    using assms(1) by (cases "k - j") simp_all
  finally show ?thesis
    using assms(3) by simp
qed

lemma length_concat_take_le: "length (concat (take j mss)) \<le> length (concat mss)"
proof -
  have "concat mss = concat (take j mss) @ concat (drop j mss)"
    by (metis append_take_drop_id concat_append)
  then show ?thesis by simp
qed

lemma of_nat_neq_64:
  assumes "a < b" "b < 2 ^ 64"
  shows "(of_nat a :: uint64) \<noteq> of_nat b"
proof
  assume "(of_nat a :: uint64) = of_nat b"
  then have "unat (of_nat a :: uint64) = unat (of_nat b :: uint64)" by simp
  moreover have "unat (of_nat a :: uint64) = a" "unat (of_nat b :: uint64) = b"
    using assms by (simp_all add: unat_of_nat)
  ultimately show False using assms(1) by simp
qed

lemma of_nat_eq_0_64:
  assumes "n < 2 ^ 64"
  shows "(of_nat n :: uint64) = 0 \<longleftrightarrow> n = 0"
  using of_nat_neq_64 [of 0 n] assms by (cases "n = 0") auto

lemma wal_invD:
  assumes "wal_inv json wal fs mss ws"
  shows "mss \<noteq> []"
    and "length (segments wal) = length mss"
    and "current wal = Some (length mss - 1)"
    and "wal_path wal \<noteq> []"
    and "map_of fs (wal_path wal) = Some Directory"
    and "map_of fs (Join (wal_path wal) ''config.json'') = Some (File (json (config wal)))"
    and "\<And>j. j < length mss \<Longrightarrow> seg_inv fs (wal_path wal) (segments wal ! j) (mss ! j)"
    and "\<And>j. j < length mss \<Longrightarrow> firstIndex (segments wal ! j) = of_nat (length (concat (take j mss)))"
    and "\<And>j. j < length mss - 1 \<Longrightarrow> mss ! j \<noteq> []"
    and "concat mss = log_entries ws"
    and "fits ws"
    and "index wal = of_nat (length ws)"
    and "\<And>j. j < length mss - 1 \<Longrightarrow> fhandle (segments wal ! j) = None"
    and "fhandle (segments wal ! (length mss - 1))
           = Some \<lparr>h_path = path (segments wal ! (length mss - 1)),
                   h_pos = length (seg_bytes (last mss))\<rparr>"
    and "\<And>q. map_of fs q \<noteq> None \<Longrightarrow> dirname q = wal_path wal \<Longrightarrow>
          q = Join (wal_path wal) ''config.json'' \<or> q \<in> path ` set (segments wal)
          \<or> (map_of fs q = Some Directory \<and> length q \<le> length (wal_path wal))"
  using assms unfolding wal_inv_def by blast+

lemma wal_invI:
  assumes "mss \<noteq> []"
    and "length (segments wal) = length mss"
    and "current wal = Some (length mss - 1)"
    and "wal_path wal \<noteq> []"
    and "map_of fs (wal_path wal) = Some Directory"
    and "map_of fs (Join (wal_path wal) ''config.json'') = Some (File (json (config wal)))"
    and "\<And>j. j < length mss \<Longrightarrow> seg_inv fs (wal_path wal) (segments wal ! j) (mss ! j)"
    and "\<And>j. j < length mss \<Longrightarrow> firstIndex (segments wal ! j) = of_nat (length (concat (take j mss)))"
    and "\<And>j. j < length mss - 1 \<Longrightarrow> mss ! j \<noteq> []"
    and "concat mss = log_entries ws"
    and "fits ws"
    and "index wal = of_nat (length ws)"
    and "\<And>j. j < length mss - 1 \<Longrightarrow> fhandle (segments wal ! j) = None"
    and "fhandle (segments wal ! (length mss - 1))
           = Some \<lparr>h_path = path (segments wal ! (length mss - 1)),
                   h_pos = length (seg_bytes (last mss))\<rparr>"
    and "\<And>q. map_of fs q \<noteq> None \<Longrightarrow> dirname q = wal_path wal \<Longrightarrow>
          q = Join (wal_path wal) ''config.json'' \<or> q \<in> path ` set (segments wal)
          \<or> (map_of fs q = Some Directory \<and> length q \<le> length (wal_path wal))"
  shows "wal_inv json wal fs mss ws"
  using assms unfolding wal_inv_def by blast

lemma Sprintf_eq_iff [simp]: "Sprintf_020d_wal a = Sprintf_020d_wal b \<longleftrightarrow> a = b"
  using Sprintf_inj by auto

text \<open>Consequences of the invariant.\<close>

lemma wal_inv_count:
  assumes "wal_inv json wal fs mss ws"
  shows "length (concat mss) = length ws" and "length ws < 2 ^ 64"
  using wal_invD(10,11) [OF assms] fits_count by simp_all

lemma wal_inv_wf:
  assumes "wal_inv json wal fs mss ws" "j < length mss" "m \<in> set (mss ! j)"
  shows "wf_entry m"
proof -
  have "mss ! j \<in> set mss"
    using assms(2) by simp
  then have "m \<in> set (concat mss)"
    using assms(3) by auto
  then show ?thesis
    using wal_invD(10,11) [OF assms(1)] wf_log_entries by simp
qed

lemma wal_inv_firstIndex_neq:
  assumes inv: "wal_inv json wal fs mss ws" and jk: "j < k" "k < length mss"
  shows "firstIndex (segments wal ! j) \<noteq> firstIndex (segments wal ! k)"
proof -
  have ne: "mss ! j \<noteq> []"
    using wal_invD(9) [OF inv, of j] jk by simp
  have lt: "length (concat (take j mss)) < length (concat (take k mss))"
    using jk ne by (intro length_concat_take_mono) simp_all
  have "length (concat (take k mss)) < 2 ^ 64"
    using length_concat_take_le [of k mss] wal_inv_count [OF inv] by simp
  then show ?thesis
    using wal_invD(8) [OF inv] jk lt by (simp add: of_nat_neq_64)
qed

lemma wal_inv_path_neq:
  assumes inv: "wal_inv json wal fs mss ws" and jk: "j \<noteq> k" "j < length mss" "k < length mss"
  shows "path (segments wal ! j) \<noteq> path (segments wal ! k)"
proof -
  have "firstIndex (segments wal ! j) \<noteq> firstIndex (segments wal ! k)"
  proof (cases "j < k")
    case True
    then show ?thesis using wal_inv_firstIndex_neq [OF inv] jk by simp
  next
    case False
    then have "k < j" using jk by simp
    then show ?thesis using wal_inv_firstIndex_neq [OF inv, of k j] jk by metis
  qed
  then show ?thesis
    using seg_invD(1) [OF wal_invD(7) [OF inv]] jk by simp
qed

lemma wal_inv_seg_bytes_le:
  assumes inv: "wal_inv json wal fs mss ws" and j: "j < length mss"
  shows "length (seg_bytes (mss ! j)) < 2 ^ 64"
proof -
  have "concat mss = concat (take j mss) @ mss ! j @ concat (drop (Suc j) mss)"
    using j by (metis append_take_drop_id concat.simps(2) concat_append Cons_nth_drop_Suc)
  then have "seg_bytes (concat mss) = seg_bytes (concat (take j mss)) @ seg_bytes (mss ! j) @ seg_bytes (concat (drop (Suc j) mss))"
    by simp
  then have "length (seg_bytes (mss ! j)) \<le> length (seg_bytes (concat mss))"
    by simp
  then show ?thesis
    using wal_invD(10,11) [OF inv] fits_bytes [of ws] by simp
qed

lemma butlast_snoc_update: "mss \<noteq> [] \<Longrightarrow> butlast mss @ [x] = mss[length mss - 1 := x]"
  by (induction mss rule: rev_induct) simp_all

lemma concat_butlast_last: "mss \<noteq> [] \<Longrightarrow> concat mss = concat (butlast mss) @ last mss"
  by (induction mss rule: rev_induct) simp_all

lemma entry_bytes_not_Nil [simp]: "entry_bytes m \<noteq> []"
  by (rule notI, drule arg_cong [where f = length]) simp

lemma seg_bytes_Nil_iff [simp]: "seg_bytes ms = [] \<longleftrightarrow> ms = []"
  by (cases ms) simp_all

lemma size_of_newMessage: "size_of (newMessage i p now) = of_nat (35 + length p)"
  by (simp add: size_of_def newMessage_def ConstEntrySize_def)

lemma config_name_neq [simp]:
  "''config.json'' \<noteq> Sprintf_020d_wal i" "Sprintf_020d_wal i \<noteq> ''config.json''"
proof -
  show "''config.json'' \<noteq> Sprintf_020d_wal i"
  proof
    assume "''config.json'' = Sprintf_020d_wal i"
    then have "Ext ''config.json'' = Ext (Sprintf_020d_wal i)" by simp
    then show False by simp
  qed
  then show "Sprintf_020d_wal i \<noteq> ''config.json''" by metis
qed

lemma append_current_inv:
  assumes inv: "wal_inv json wal fs mss ws" and fit: "fits (ws @ [(now, p)])"
  shows "\<exists>wal' fs'. append_current now wal fs p = (None, wal', fs') \<and>
           wal_inv json wal' fs'
             (butlast mss @ [last mss @ [newMessage (of_nat (length ws)) p now]])
             (ws @ [(now, p)]) \<and>
           config wal' = config wal \<and> wal_path wal' = wal_path wal"
proof -
  define e where "e = newMessage (of_nat (length ws)) p now"
  define c where "c = length mss - 1"
  define s where "s = segments wal ! c"
  define ms where "ms = last mss"
  define dir where "dir = wal_path wal"
  note D = wal_invD [OF inv]
  have ne: "mss \<noteq> []" by (rule D(1))
  have c: "c < length mss" using ne by (simp add: c_def)
  have msc: "ms = mss ! c" using ne by (simp add: ms_def c_def last_conv_nth)
  have si: "seg_inv fs dir s ms"
    using D(7) [OF c] by (simp add: s_def msc dir_def)
  note S = seg_invD [OF si]
  have h: "fhandle s = Some \<lparr>h_path = path s, h_pos = length (seg_bytes ms)\<rparr>"
    using D(14) by (simp add: s_def c_def ms_def)
  have pfit: "length p + 35 < 2 ^ 32"
    using fits_snocD [OF fit] by simp
  have wfe: "wf_entry e"
    using pfit by (simp add: e_def wf_newMessage)
  define fs' where "fs' = AList.update (path s) (File (seg_bytes ms @ entry_bytes e)) fs"
  define s' where "s' = s\<lparr>fhandle := Some \<lparr>h_path = path s, h_pos = length (seg_bytes ms) + length (entry_bytes e)\<rparr>,
      lastIndex := Index e, lastTimestamp := Timestamp e,
      firstTimestamp := (if fileLength s = 0 then Timestamp e else firstTimestamp s),
      fileLength := fileLength s + size_of e\<rparr>"
  define wal' where "wal' = wal\<lparr>segments := (segments wal)[c := s'], index := index wal + 1\<rparr>"
  have sw: "segment_write fs s e = (None, s', fs')"
    by (simp add: segment_write_def writeEntry_def File_Write_def h S(2) s'_def fs'_def)
  have ie: "newMessage (index wal) p now = e"
    by (simp add: e_def D(12))
  have cur: "current wal = Some c"
    using D(3) by (simp add: c_def)
  have ac: "append_current now wal fs p = (None, wal', fs')"
    by (simp add: append_current_def cur s_def [symmetric] ie sw wal'_def)
  have mss': "butlast mss @ [ms @ [e]] = mss[c := ms @ [e]]"
    using ne by (simp add: butlast_snoc_update c_def)
  have lenb: "length (seg_bytes ms) < 2 ^ 64"
    using wal_inv_seg_bytes_le [OF inv c] by (simp add: msc)
  have fl0: "fileLength s = 0 \<longleftrightarrow> ms = []"
    using of_nat_eq_0_64 [OF lenb] by (simp add: S(6))
  have si': "seg_inv fs' dir s' (ms @ [e])"
  proof (rule seg_invI)
    show "path s' = Join dir (Sprintf_020d_wal (firstIndex s'))"
      using S(1) by (simp add: s'_def)
    show "map_of fs' (path s') = Some (File (seg_bytes (ms @ [e])))"
      by (simp add: fs'_def s'_def)
    show "lastIndex s' = (if ms @ [e] = [] then firstIndex s' else Index (last (ms @ [e])))"
      by (simp add: s'_def)
    show "firstTimestamp s' = (if ms @ [e] = [] then zeroTime else Timestamp (hd (ms @ [e])))"
      using S(4) by (simp add: s'_def fl0)
    show "lastTimestamp s' = (if ms @ [e] = [] then zeroTime else Timestamp (last (ms @ [e])))"
      by (simp add: s'_def)
    show "fileLength s' = of_nat (length (seg_bytes (ms @ [e])))"
    proof -
      have "Data e = p" by (simp add: e_def newMessage_def)
      then show ?thesis
        by (simp add: s'_def S(6) size_of_def ConstEntrySize_def)
    qed
  qed
  have pne: "\<And>j. j < length mss \<Longrightarrow> j \<noteq> c \<Longrightarrow> path (segments wal ! j) \<noteq> path s"
    using wal_inv_path_neq [OF inv _ _ c] by (simp add: s_def)
  have inv': "wal_inv json wal' fs' (mss[c := ms @ [e]]) (ws @ [(now, p)])"
  proof (rule wal_invI)
    show "mss[c := ms @ [e]] \<noteq> []" using ne by simp
    show "length (segments wal') = length (mss[c := ms @ [e]])"
      using D(2) by (simp add: wal'_def)
    show "current wal' = Some (length (mss[c := ms @ [e]]) - 1)"
      using D(3) by (simp add: wal'_def)
    show "wal_path wal' \<noteq> []" using D(4) by (simp add: wal'_def)
    show "map_of fs' (wal_path wal') = Some Directory"
      using D(5) S(1) by (simp add: wal'_def fs'_def dir_def)
    show "map_of fs' (Join (wal_path wal') ''config.json'') = Some (File (json (config wal')))"
      using D(6) S(1) by (simp add: wal'_def fs'_def dir_def)
    show "seg_inv fs' (wal_path wal') (segments wal' ! j) (mss[c := ms @ [e]] ! j)"
      if "j < length (mss[c := ms @ [e]])" for j
    proof (cases "j = c")
      case True
      then show ?thesis
        using si' c D(2) by (simp add: wal'_def dir_def)
    next
      case False
      then have "seg_inv fs' dir (segments wal ! j) (mss ! j)"
        unfolding fs'_def using that D(7) [of j] pne [of j]
        by (intro seg_inv_frame) (simp_all add: dir_def)
      then show ?thesis
        using False by (simp add: wal'_def dir_def)
    qed
    show "firstIndex (segments wal' ! j) = of_nat (length (concat (take j (mss[c := ms @ [e]]))))"
      if "j < length (mss[c := ms @ [e]])" for j
    proof -
      have jc: "j \<le> c" using that by (simp add: c_def)
      have "firstIndex (segments wal' ! j) = firstIndex (segments wal ! j)"
        using c D(2) by (cases "j = c") (simp_all add: wal'_def s'_def s_def)
      then show ?thesis
        using D(8) [of j] that jc by simp
    qed
    show "mss[c := ms @ [e]] ! j \<noteq> []" if "j < length (mss[c := ms @ [e]]) - 1" for j
      using that D(9) [of j] by (simp add: c_def)
    show "concat (mss[c := ms @ [e]]) = log_entries (ws @ [(now, p)])"
    proof -
      have "concat (mss[c := ms @ [e]]) = concat (butlast mss) @ ms @ [e]"
        unfolding mss' [symmetric] by simp
      also have "\<dots> = concat mss @ [e]"
        using concat_butlast_last [OF ne] by (simp add: ms_def)
      finally show ?thesis
        using D(10) by (simp add: log_entries_snoc e_def)
    qed
    show "fits (ws @ [(now, p)])" by (rule fit)
    show "index wal' = of_nat (length (ws @ [(now, p)]))"
      using D(12) by (simp add: wal'_def)
    show "fhandle (segments wal' ! j) = None" if "j < length (mss[c := ms @ [e]]) - 1" for j
      using that D(13) [of j] by (simp add: wal'_def c_def)
    have L: "length (mss[c := ms @ [e]]) - 1 = c"
      by (simp add: c_def)
    have Lst: "last (mss[c := ms @ [e]]) = ms @ [e]"
      unfolding mss' [symmetric] by simp
    have sc: "segments wal' ! c = s'"
      using c D(2) by (simp add: wal'_def)
    show "fhandle (segments wal' ! (length (mss[c := ms @ [e]]) - 1))
        = Some \<lparr>h_path = path (segments wal' ! (length (mss[c := ms @ [e]]) - 1)),
                h_pos = length (seg_bytes (last (mss[c := ms @ [e]])))\<rparr>"
      unfolding L Lst sc by (simp add: s'_def)
    show "q = Join (wal_path wal') ''config.json'' \<or> q \<in> path ` set (segments wal')
          \<or> (map_of fs' q = Some Directory \<and> length q \<le> length (wal_path wal'))"
      if q: "map_of fs' q \<noteq> None" "dirname q = wal_path wal'" for q
    proof -
      have paths: "path ` set (segments wal') = path ` set (segments wal)"
      proof -
        have "map path (segments wal') = map path (segments wal)"
          using c D(2)
          by (simp add: wal'_def map_update s'_def s_def list_update_same_conv)
        then show ?thesis by (metis set_map)
      qed
      have ps: "path s \<in> path ` set (segments wal)"
        using c D(2) by (simp add: s_def)
      show ?thesis
      proof (cases "q = path s")
        case True
        then show ?thesis using ps paths by simp
      next
        case False
        then have "map_of fs q \<noteq> None" "map_of fs' q = map_of fs q"
          using q(1) by (simp_all add: fs'_def)
        then show ?thesis
          using D(15) [of q] q(2) paths by (simp add: wal'_def)
      qed
    qed
  qed
  have "wal_inv json wal' fs' (butlast mss @ [last mss @ [newMessage (of_nat (length ws)) p now]])
      (ws @ [(now, p)])"
    using inv' unfolding mss' [symmetric] by (simp add: ms_def e_def)
  moreover have "config wal' = config wal" "wal_path wal' = wal_path wal"
    by (simp_all add: wal'_def)
  ultimately show ?thesis
    using ac by blast
qed

lemma Create_fresh:
  assumes "map_of fs p = None" "map_of fs (dirname p) = Some Directory"
  shows "Create fs p = (Inr \<lparr>h_path = p, h_pos = 0\<rparr>, AList.update p (File []) fs)"
  using assms by (simp add: Create_def)

lemma wal_inv_fresh_path:
  assumes inv: "wal_inv json wal fs mss ws" and lst: "last mss \<noteq> []"
  shows "map_of fs (Join (wal_path wal) (Sprintf_020d_wal (index wal))) = None"
    and "\<And>j. j < length mss \<Longrightarrow>
           path (segments wal ! j) \<noteq> Join (wal_path wal) (Sprintf_020d_wal (index wal))"
proof -
  note D = wal_invD [OF inv]
  let ?q = "Join (wal_path wal) (Sprintf_020d_wal (index wal))"
  have cnt: "length (concat mss) = length ws" "length ws < 2 ^ 64"
    using wal_inv_count [OF inv] by simp_all
  have neq: "firstIndex (segments wal ! j) \<noteq> index wal" if j: "j < length mss" for j
  proof -
    have "length (concat (take j mss)) < length (concat (take (length mss) mss))"
    proof (cases "j = length mss - 1")
      case True
      then have "mss ! j \<noteq> []" using lst D(1) by (simp add: last_conv_nth)
      then show ?thesis using j by (intro length_concat_take_mono) simp_all
    next
      case False
      then have "mss ! j \<noteq> []" using D(9) [of j] j by simp
      then show ?thesis using j by (intro length_concat_take_mono) simp_all
    qed
    then have "length (concat (take j mss)) < length ws"
      using cnt by simp
    then show ?thesis
      using D(8) [OF j] D(12) cnt(2) by (simp add: of_nat_neq_64)
  qed
  show pn: "path (segments wal ! j) \<noteq> ?q" if j: "j < length mss" for j
    using seg_invD(1) [OF D(7) [OF j]] neq [OF j] by simp
  show "map_of fs ?q = None"
  proof (rule ccontr)
    assume a: "map_of fs ?q \<noteq> None"
    have "dirname ?q = wal_path wal"
      using D(4) by simp
    from D(15) [OF a this] consider "?q \<in> path ` set (segments wal)"
      | "length ?q \<le> length (wal_path wal)"
      by auto
    then show False
    proof cases
      case 1
      then obtain j where "j < length mss" "path (segments wal ! j) = ?q"
        using D(2) by (metis (no_types, lifting) image_iff in_set_conv_nth)
      then show False using pn by blast
    next
      case 2
      then show False using Join_longer [of "wal_path wal" "Sprintf_020d_wal (index wal)"] by simp
    qed
  qed
qed

lemma cycle_inv:
  assumes inv: "wal_inv json wal fs mss ws" and lst: "last mss \<noteq> []"
  shows "\<exists>wal' fs' tr. cycle wal fs = (None, wal', fs', tr) \<and> wal_inv json wal' fs' (mss @ [[]]) ws \<and>
           config wal' = config wal \<and> wal_path wal' = wal_path wal"
proof -
  define c where "c = length mss - 1"
  define s where "s = segments wal ! c"
  define q where "q = Join (wal_path wal) (Sprintf_020d_wal (index wal))"
  note D = wal_invD [OF inv]
  have ne: "mss \<noteq> []" by (rule D(1))
  have c: "c < length mss" using ne by (simp add: c_def)
  have cur: "current wal = Some c" using D(3) by (simp add: c_def)
  have h: "fhandle s = Some \<lparr>h_path = path s, h_pos = length (seg_bytes (last mss))\<rparr>"
    using D(14) by (simp add: s_def c_def)
  define segs1 where "segs1 = (segments wal)[c := s\<lparr>fhandle := None\<rparr>]"
  define wal1 where "wal1 = wal\<lparr>segments := segs1\<rparr>"
  have cl: "Close wal fs = (None, wal1, [(path s, contents fs (path s))])"
    by (simp add: Close_def cur s_def [symmetric] segment_flush_def segment_close_def h wal1_def segs1_def)
  define seg where "seg = \<lparr>firstIndex = index wal, lastIndex = index wal, firstTimestamp = zeroTime,
      lastTimestamp = zeroTime, path = q, fhandle = Some \<lparr>h_path = q, h_pos = 0\<rparr>, fileLength = 0\<rparr>"
  define fs' where "fs' = AList.update q (File []) fs"
  have fresh: "map_of fs q = None"
    using wal_inv_fresh_path(1) [OF inv lst] by (simp add: q_def)
  have pq: "path (segments wal ! j) \<noteq> q" if "j < length mss" for j
    using wal_inv_fresh_path(2) [OF inv lst that] by (simp add: q_def)
  have dq: "dirname q = wal_path wal"
    using D(4) by (simp add: q_def)
  have cs: "createSegment fs (wal_path wal1) (index wal1) = (Inr seg, fs')"
    using Create_fresh [of fs q] fresh dq D(5)
    by (simp add: createSegment_def wal1_def q_def [symmetric] seg_def fs'_def)
  define wal' where "wal' = wal1\<lparr>current := Some (length (segments wal1)), segments := segments wal1 @ [seg]\<rparr>"
  have cy: "cycle wal fs = (None, wal', fs', [(path s, contents fs (path s))])"
    by (simp add: cycle_def cl cs wal'_def)
  have len1: "length segs1 = length mss"
    using D(2) by (simp add: segs1_def)
  have nth1: "segs1 ! j = (segments wal ! j)\<lparr>fhandle := (if j = c then None else fhandle (segments wal ! j))\<rparr>"
    if "j < length mss" for j
    using that D(2) by (cases "j = c") (simp_all add: segs1_def s_def)
  have segs': "segments wal' = segs1 @ [seg]"
    by (simp add: wal'_def wal1_def)
  have inv': "wal_inv json wal' fs' (mss @ [[]]) ws"
  proof (rule wal_invI)
    show "mss @ [[]] \<noteq> []" by simp
    show "length (segments wal') = length (mss @ [[]])"
      by (simp add: segs' len1)
    show "current wal' = Some (length (mss @ [[]]) - 1)"
      by (simp add: wal'_def wal1_def len1)
    show "wal_path wal' \<noteq> []" using D(4) by (simp add: wal'_def wal1_def)
    show "map_of fs' (wal_path wal') = Some Directory"
      using D(5) by (simp add: wal'_def wal1_def fs'_def q_def)
    show "map_of fs' (Join (wal_path wal') ''config.json'') = Some (File (json (config wal')))"
      using D(6) by (simp add: wal'_def wal1_def fs'_def q_def)
    show "seg_inv fs' (wal_path wal') (segments wal' ! j) ((mss @ [[]]) ! j)"
      if "j < length (mss @ [[]])" for j
    proof (cases "j < length mss")
      case True
      have "seg_inv fs' (wal_path wal) (segments wal ! j) (mss ! j)"
        unfolding fs'_def using D(7) [OF True] pq [OF True] by (rule seg_inv_frame)
      then have "seg_inv fs' (wal_path wal) (segs1 ! j) (mss ! j)"
        unfolding nth1 [OF True] by (rule seg_inv_handle)
      then show ?thesis
        using True by (simp add: segs' nth_append len1 wal'_def wal1_def)
    next
      case False
      then have j: "j = length mss" using that by simp
      have "seg_inv fs' (wal_path wal) seg []"
        by (rule seg_invI) (simp_all add: seg_def q_def fs'_def)
      then show ?thesis
        by (simp add: j segs' nth_append len1 wal'_def wal1_def)
    qed
    show "firstIndex (segments wal' ! j) = of_nat (length (concat (take j (mss @ [[]]))))"
      if "j < length (mss @ [[]])" for j
    proof (cases "j < length mss")
      case True
      then show ?thesis
        using D(8) [OF True] by (simp add: segs' nth_append len1 nth1)
    next
      case False
      then have j: "j = length mss" using that by simp
      show ?thesis
        using D(10,12) by (simp add: j segs' nth_append len1 seg_def)
    qed
    show "(mss @ [[]]) ! j \<noteq> []" if "j < length (mss @ [[]]) - 1" for j
    proof (cases "j = c")
      case True
      then show ?thesis using lst ne by (simp add: nth_append c_def last_conv_nth)
    next
      case False
      then show ?thesis using that D(9) [of j] by (simp add: nth_append c_def)
    qed
    show "concat (mss @ [[]]) = log_entries ws" using D(10) by simp
    show "fits ws" by (rule D(11))
    show "index wal' = of_nat (length ws)" using D(12) by (simp add: wal'_def wal1_def)
    show "fhandle (segments wal' ! j) = None" if "j < length (mss @ [[]]) - 1" for j
    proof -
      have j: "j < length mss" using that by simp
      show ?thesis
        using D(13) [of j] j by (simp add: segs' nth_append len1 nth1 c_def)
    qed
    show "fhandle (segments wal' ! (length (mss @ [[]]) - 1))
        = Some \<lparr>h_path = path (segments wal' ! (length (mss @ [[]]) - 1)),
                h_pos = length (seg_bytes (last (mss @ [[]])))\<rparr>"
      by (simp add: segs' nth_append len1 seg_def)
    show "r = Join (wal_path wal') ''config.json'' \<or> r \<in> path ` set (segments wal')
          \<or> (map_of fs' r = Some Directory \<and> length r \<le> length (wal_path wal'))"
      if r: "map_of fs' r \<noteq> None" "dirname r = wal_path wal'" for r
    proof (cases "r = q")
      case True
      then show ?thesis by (simp add: segs' seg_def)
    next
      case False
      then have m: "map_of fs r \<noteq> None" "map_of fs' r = map_of fs r"
        using r(1) by (simp_all add: fs'_def)
      have "path ` set (segments wal) \<subseteq> path ` set (segments wal')"
      proof
        fix x assume "x \<in> path ` set (segments wal)"
        then obtain j where j: "j < length mss" "x = path (segments wal ! j)"
          using D(2) by (metis (no_types, lifting) image_iff in_set_conv_nth)
        have "segs1 ! j \<in> set segs1" using j len1 by simp
        moreover have "path (segs1 ! j) = x" using j by (simp add: nth1)
        ultimately show "x \<in> path ` set (segments wal')"
          by (auto simp: segs')
      qed
      then show ?thesis
        using D(15) [OF m(1)] r(2) m(2) by (auto simp: wal'_def wal1_def)
    qed
  qed
  have "config wal' = config wal" "wal_path wal' = wal_path wal"
    by (simp_all add: wal'_def wal1_def)
  then show ?thesis
    using cy inv' by blast
qed

lemma config_only_With [simp]:
  "config_only (WithMaxSegmentSize n)" "config_only (WithMaxSegmentCount n)"
  "config_only (WithExpiration l i)"
  by (simp_all add: config_only_def WithMaxSegmentSize_def WithMaxSegmentCount_def WithExpiration_def)

lemma Write_inv:
  assumes inv: "wal_inv json wal fs mss ws" and fit: "fits (ws @ [(now, p)])"
  shows "\<exists>wal' fs' mss' tr. Write now wal fs p = (None, wal', fs', tr) \<and>
           wal_inv json wal' fs' mss' (ws @ [(now, p)]) \<and> last mss' \<noteq> [] \<and>
           config wal' = config wal \<and> wal_path wal' = wal_path wal"
proof -
  define c where "c = length mss - 1"
  note D = wal_invD [OF inv]
  have c: "c < length mss" using D(1) by (simp add: c_def)
  have cur: "current wal = Some c" using D(3) by (simp add: c_def)
  let ?full = "MaxSegmentSize (config wal) \<noteq> 0
                 \<and> fileLength (segments wal ! c) \<ge> MaxSegmentSize (config wal)"
  show ?thesis
  proof (cases ?full)
    case True
    then have "fileLength (segments wal ! c) \<noteq> 0"
      by (metis word_le_0_iff)
    then have "seg_bytes (mss ! c) \<noteq> []"
      using seg_invD(6) [OF D(7) [OF c]] by auto
    then have lst: "last mss \<noteq> []"
      using D(1) by (simp add: last_conv_nth c_def)
    from cycle_inv [OF inv lst] obtain wal1 fs1 tr where
      cy: "cycle wal fs = (None, wal1, fs1, tr)" and inv1: "wal_inv json wal1 fs1 (mss @ [[]]) ws"
      and fr1: "config wal1 = config wal" "wal_path wal1 = wal_path wal"
      by blast
    from append_current_inv [OF inv1 fit] obtain wal' fs' where
      ac: "append_current now wal1 fs1 p = (None, wal', fs')"
      and inv': "wal_inv json wal' fs'
             (butlast (mss @ [[]]) @ [last (mss @ [[]]) @ [newMessage (of_nat (length ws)) p now]])
             (ws @ [(now, p)])"
      and fr': "config wal' = config wal1" "wal_path wal' = wal_path wal1"
      by blast
    have "Write now wal fs p = (None, wal', fs', tr)"
      using True by (simp add: Write_unfold cur cy ac)
    then show ?thesis
      using inv' fr1 fr' by (intro exI conjI) (assumption, assumption, simp_all)
  next
    case False
    from append_current_inv [OF inv fit] obtain wal' fs' where
      ac: "append_current now wal fs p = (None, wal', fs')"
      and inv': "wal_inv json wal' fs'
             (butlast mss @ [last mss @ [newMessage (of_nat (length ws)) p now]])
             (ws @ [(now, p)])"
      and fr': "config wal' = config wal" "wal_path wal' = wal_path wal"
      by blast
    have ifeq: "(if ?full then cycle wal fs else (None, wal, fs, [])) = (None, wal, fs, [])"
      using False by (rule if_not_P)
    have "Write now wal fs p = (None, wal', fs', [])"
      by (simp only: Write_unfold cur option.case ifeq prod.case ac)
    then show ?thesis
      using inv' fr' by (intro exI conjI) (assumption, assumption, simp_all)
  qed
qed

lemma fits_append: "fits (ws @ ws') \<Longrightarrow> fits ws"
  by (auto simp: fits_def)

lemma Writes_inv:
  assumes "wal_inv json wal fs mss ws" and "fits (ws @ ws')" and "ws' \<noteq> [] \<or> last mss \<noteq> [] \<or> ws = []"
  shows "\<exists>wal' fs' mss'. Writes ws' wal fs = (None, wal', fs') \<and>
           wal_inv json wal' fs' mss' (ws @ ws') \<and> (ws @ ws' \<noteq> [] \<longrightarrow> last mss' \<noteq> []) \<and>
           config wal' = config wal \<and> wal_path wal' = wal_path wal"
  using assms
proof (induction ws' arbitrary: wal fs mss ws)
  case Nil
  then show ?case by auto
next
  case (Cons w ws')
  obtain now p where w: "w = (now, p)" by (cases w)
  have f1: "fits (ws @ [(now, p)])"
    using Cons.prems(2) fits_append [of "ws @ [(now, p)]" ws'] by (simp add: w)
  from Write_inv [OF Cons.prems(1) f1] obtain wal1 fs1 mss1 tr where
    wr: "Write now wal fs p = (None, wal1, fs1, tr)"
    and inv1: "wal_inv json wal1 fs1 mss1 (ws @ [(now, p)])" and l1: "last mss1 \<noteq> []"
    and fr1: "config wal1 = config wal" "wal_path wal1 = wal_path wal"
    by blast
  have f2: "fits ((ws @ [(now, p)]) @ ws')"
    using Cons.prems(2) by (simp add: w)
  from Cons.IH [OF inv1 f2] l1 obtain wal' fs' mss' where
    "Writes ws' wal1 fs1 = (None, wal', fs')" "wal_inv json wal' fs' mss' ((ws @ [(now, p)]) @ ws')"
    "(ws @ [(now, p)]) @ ws' \<noteq> [] \<longrightarrow> last mss' \<noteq> []"
    "config wal' = config wal1" "wal_path wal' = wal_path wal1"
    by blast
  then show ?case
    using wr fr1 by (auto simp: w)
qed

lemma MkdirAll_props:
  assumes "MkdirAll fs p = (None, fs')"
  shows "map_of fs' p = Some Directory \<and>
    (\<forall>q. map_of fs' q = map_of fs q \<or>
         (map_of fs q = None \<and> map_of fs' q = Some Directory \<and> length q \<le> length p))"
  using assms
proof (induction fs p arbitrary: fs' rule: MkdirAll.induct)
  case (1 fs p)
  show ?case
  proof (cases "map_of fs p")
    case None
    show ?thesis
    proof (cases "length (dirname p) < length p")
      case True
      obtain r fsA where rec: "MkdirAll fs (dirname p) = (r, fsA)"
        by (cases "MkdirAll fs (dirname p)")
      have r: "r = None" and fs': "fs' = AList.update p Directory fsA"
        using "1.prems" None True rec
        by (simp_all add: MkdirAll.simps [of fs p] split: option.splits)
      from "1.IH" [OF None True] rec r
      have ih: "\<forall>q. map_of fsA q = map_of fs q \<or>
         (map_of fs q = None \<and> map_of fsA q = Some Directory \<and> length q \<le> length (dirname p))"
        by simp
      show ?thesis
      proof (intro conjI allI)
        show "map_of fs' p = Some Directory" by (simp add: fs')
        fix q
        show "map_of fs' q = map_of fs q \<or>
           (map_of fs q = None \<and> map_of fs' q = Some Directory \<and> length q \<le> length p)"
          using ih [rule_format, of q] None True by (cases "q = p") (auto simp: fs')
      qed
    next
      case False
      then have fs': "fs' = AList.update p Directory fs"
        using "1.prems" None by (simp add: MkdirAll.simps [of fs p])
      show ?thesis
        using None by (auto simp: fs')
    qed
  next
    case (Some n)
    then show ?thesis
      using "1.prems" by (cases n) (simp_all add: MkdirAll.simps [of fs p])
  qed
qed

lemma config_only_fields:
  assumes "config_only option"
  shows "wal_path (option w) = wal_path w" "current (option w) = current w"
    "segments (option w) = segments w" "index (option w) = index w"
proof -
  have e: "option w = w\<lparr>config := config (option w)\<rparr>"
    using assms by (simp add: config_only_def)
  show "wal_path (option w) = wal_path w" by (subst e) simp
  show "current (option w) = current w" by (subst e) simp
  show "segments (option w) = segments w" by (subst e) simp
  show "index (option w) = index w" by (subst e) simp
qed

lemma fold_config_only:
  assumes "\<forall>option \<in> set options. config_only option"
  shows "wal_path (fold (\<lambda>option wal. option wal) options w) = wal_path w \<and>
         current (fold (\<lambda>option wal. option wal) options w) = current w \<and>
         segments (fold (\<lambda>option wal. option wal) options w) = segments w \<and>
         index (fold (\<lambda>option wal. option wal) options w) = index w"
  using assms
proof (induction options arbitrary: w)
  case Nil
  then show ?case by simp
next
  case (Cons a options)
  then have a: "config_only a" and r: "\<forall>option \<in> set options. config_only option"
    by simp_all
  show ?case
    using Cons.IH [OF r, of "a w"] config_only_fields [OF a, of w] by simp
qed

lemma New_inv:
  assumes new: "New json fs0 dir options = (Inr wal, fs)"
    and dir: "dir \<noteq> []"
    and opts: "\<forall>option \<in> set options. config_only option"
    and below: "\<forall>q \<in> fst ` set fs0. dirname q \<noteq> dir"
  shows "wal_inv json wal fs [[]] [] \<and> wal_path wal = dir"
proof -
  define wal0 where "wal0 = \<lparr>wal_path = dir, current = None, segments = [],
      config = \<lparr>MaxSegmentSize = 0, MaxSegmentCount = 0, ExpirationTime = 0, ExpirationInterval = 0\<rparr>,
      index = 0\<rparr>"
  define wal1 where "wal1 = fold (\<lambda>option wal. option wal) options wal0"
  have w1: "wal_path wal1 = dir" "current wal1 = None" "segments wal1 = []" "index wal1 = 0"
    using fold_config_only [OF opts, of wal0] by (simp_all add: wal1_def wal0_def)
  define q0 where "q0 = Join dir (Sprintf_020d_wal 0)"
  define qc where "qc = Join dir ''config.json''"
  define seg where "seg = \<lparr>firstIndex = 0, lastIndex = 0, firstTimestamp = zeroTime,
      lastTimestamp = zeroTime, path = q0, fhandle = Some \<lparr>h_path = q0, h_pos = 0\<rparr>, fileLength = 0\<rparr>"
  define wal2 where "wal2 = wal1\<lparr>current := Some (length (segments wal1)), segments := segments wal1 @ [seg]\<rparr>"
  have below': "map_of fs0 q = None" if "dirname q = dir" for q
    using below that by (metis map_of_eq_None_iff)
  obtain r1 fs1 where mk: "MkdirAll fs0 dir = (r1, fs1)"
    by (cases "MkdirAll fs0 dir")
  have new': "(case Lstat fs0 dir of
           Inr _ \<Rightarrow> (Inl ErrExist, fs0)
         | Inl e \<Rightarrow>
             if e \<noteq> ErrNotExist then (Inl e, fs0)
             else
            (case MkdirAll fs0 dir of
               (Some e, fs1) \<Rightarrow> (Inl e, fs1)
             | (None, fs1) \<Rightarrow>
            (case createSegment fs1 dir 0 of
               (Inl e, fs2) \<Rightarrow> (Inl e, fs2)
             | (Inr seg, fs2) \<Rightarrow>
                 (let wal2 = wal1\<lparr>current := Some (length (segments wal1)),
                                  segments := segments wal1 @ [seg]\<rparr>
                  in case writeConfigToDisk json fs2 wal2 of
                       (Some e, fs3) \<Rightarrow> (Inl e, fs3)
                     | (None, fs3) \<Rightarrow> (Inr wal2, fs3))))) = (Inr wal, fs)"
    using new unfolding New_def Let_def wal0_def [symmetric] wal1_def [symmetric] w1 .
  have r1: "r1 = None"
    using new' mk by (auto split: sum.splits if_splits option.splits)
  note M = MkdirAll_props [OF mk [unfolded r1]]
  have d1: "map_of fs1 dir = Some Directory" using M by simp
  have m1: "map_of fs1 q = None" if "dirname q = dir" "length dir < length q" for q
  proof -
    from M have "map_of fs1 q = map_of fs0 q \<or> length q \<le> length dir" by blast
    then have e: "map_of fs1 q = map_of fs0 q" using that by simp
    have "map_of fs0 q = None"
      using that(1) by (rule below')
    then show ?thesis using e by simp
  qed
  have dq0: "dirname q0 = dir" and dqc: "dirname qc = dir"
    using dir by (simp_all add: q0_def qc_def dirname_Join)
  have f0: "map_of fs1 q0 = None"
    using m1 [OF dq0] Join_longer [of dir] by (simp add: q0_def)
  define fs2 where "fs2 = AList.update q0 (File []) fs1"
  have cs: "createSegment fs1 dir 0 = (Inr seg, fs2)"
    using Create_fresh [of fs1 q0] f0 dq0 d1
    by (simp add: createSegment_def q0_def [symmetric] seg_def fs2_def)
  have qcq0: "qc \<noteq> q0" by (simp add: qc_def q0_def)
  have fc: "map_of fs2 qc = None"
    using m1 [OF dqc] Join_longer [of dir] qcq0 by (simp add: qc_def fs2_def)
  define fs3 where "fs3 = AList.update qc (File (json (config wal2))) (AList.update qc (File []) fs2)"
  have dq: "dir \<noteq> q0" "dir \<noteq> qc"
    by (simp_all add: q0_def qc_def)
  have d2: "map_of fs2 (dirname qc) = Some Directory"
    using d1 dq by (simp add: dqc fs2_def)
  have cr: "Create fs2 qc = (Inr \<lparr>h_path = qc, h_pos = 0\<rparr>, AList.update qc (File []) fs2)"
    using fc d2 by (rule Create_fresh)
  have wp: "wal_path wal2 = dir"
    by (simp add: wal2_def w1)
  have wc: "writeConfigToDisk json fs2 wal2 = (None, fs3)"
    unfolding writeConfigToDisk_def Let_def wp qc_def [symmetric] cr
    by (simp add: File_Write_def contents_def write_at_def fs3_def)
  have res: "wal = wal2" "fs = fs3"
    using new' by (simp_all add: Lstat_def mk r1 cs wal2_def [symmetric] wc split: option.splits if_splits)
  have segs: "segments wal2 = [seg]" "wal_path wal2 = dir" "current wal2 = Some 0" "index wal2 = 0"
    by (simp_all add: wal2_def w1)
  have keep: "map_of fs3 q = map_of fs1 q" if "q \<noteq> q0" "q \<noteq> qc" for q
    using that by (simp add: fs3_def fs2_def)
  have "wal_inv json wal2 fs3 [[]] []"
  proof (rule wal_invI)
    show "[[]] \<noteq> ([] :: Entry list list)" by simp
    show "length (segments wal2) = length [[] :: Entry list]" by (simp add: segs)
    show "current wal2 = Some (length [[] :: Entry list] - 1)" by (simp add: segs)
    show "wal_path wal2 \<noteq> []" using dir by (simp add: segs)
    show "map_of fs3 (wal_path wal2) = Some Directory"
      using d1 by (simp add: segs fs3_def fs2_def qc_def q0_def)
    show "map_of fs3 (Join (wal_path wal2) ''config.json'') = Some (File (json (config wal2)))"
      by (simp add: segs fs3_def qc_def)
    show "seg_inv fs3 (wal_path wal2) (segments wal2 ! j) ([[]] ! j)" if "j < length [[] :: Entry list]" for j
    proof -
      have "seg_inv fs3 dir seg []"
        using qcq0 by (intro seg_invI) (simp_all add: seg_def fs3_def fs2_def q0_def)
      then show ?thesis using that by (simp add: segs)
    qed
    show "firstIndex (segments wal2 ! j) = of_nat (length (concat (take j [[] :: Entry list])))"
      if "j < length [[] :: Entry list]" for j
      using that by (simp add: segs seg_def)
    show "[[]] ! j \<noteq> ([] :: Entry list)" if "j < length [[] :: Entry list] - 1" for j
      using that by simp
    show "concat [[]] = log_entries []" by simp
    show "fits []" by (simp add: fits_def)
    show "index wal2 = of_nat (length ([] :: (Time \<times> byte list) list))" by (simp add: segs)
    show "fhandle (segments wal2 ! j) = None" if "j < length [[] :: Entry list] - 1" for j
      using that by simp
    show "fhandle (segments wal2 ! (length [[] :: Entry list] - 1))
        = Some \<lparr>h_path = path (segments wal2 ! (length [[] :: Entry list] - 1)),
                h_pos = length (seg_bytes (last [[]]))\<rparr>"
      by (simp add: segs seg_def)
    show "q = Join (wal_path wal2) ''config.json'' \<or> q \<in> path ` set (segments wal2)
          \<or> (map_of fs3 q = Some Directory \<and> length q \<le> length (wal_path wal2))"
      if q: "map_of fs3 q \<noteq> None" "dirname q = wal_path wal2" for q
    proof (cases "q = qc \<or> q = q0")
      case True
      then show ?thesis by (auto simp: segs seg_def qc_def)
    next
      case False
      then have k: "map_of fs3 q = map_of fs1 q" using keep by simp
      have "\<not> length dir < length q"
        using m1 [of q] q k by (auto simp: segs)
      moreover from M have "map_of fs1 q = map_of fs0 q \<or> map_of fs1 q = Some Directory" by blast
      moreover have "map_of fs0 q = None"
        using q(2) by (intro below') (simp add: segs)
      ultimately show ?thesis
        using q k by (auto simp: segs)
    qed
  qed
  then show ?thesis
    unfolding res using segs(2) by simp
qed

section \<open>Examples and small facts\<close>


lemma example_New:
  "New example_Encode [] ''/d'' [WithMaxSegmentSize 1] = (Inr example_wal0, example_fs0)"
  by code_simp

lemma example_Write:
  "Write (example_time 1) example_wal0 example_fs0 [] = (None, example_wal1, example_fs1, [])"
  by code_simp

lemma load_segments_none:
  assumes "\<forall>p \<in> set ps. map_of fs p \<noteq> None \<and>
             (\<forall>bs. map_of fs p = Some (File bs) \<longrightarrow> Ext (Base p) \<noteq> ''.wal'')"
  shows "load_segments fs ps = Inr []"
  using assms
proof (induction ps)
  case Nil
  then show ?case by simp
next
  case (Cons p ps)
  then obtain n where n: "map_of fs p = Some n" by auto
  have "IsDir n \<or> Ext (Base p) \<noteq> ''.wal''"
    using Cons.prems n by (cases n) (simp_all add: IsDir_def)
  then show ?case
    using Cons n by (auto simp: Lstat_def)
qed

lemma apply_options_both:
  assumes "i \<noteq> 0" "\<not> IsZero t"
  shows "apply_options [WithIndex i, WithTimestamp t] \<lparr>r_index = 0, r_timestamp = zeroTime, r_current = None\<rparr>
           = Inl ErrIndexAndTimestampSet"
    and "apply_options [WithTimestamp t, WithIndex i] \<lparr>r_index = 0, r_timestamp = zeroTime, r_current = None\<rparr>
           = Inl ErrIndexAndTimestampSet"
  using assms by (simp_all add: WithIndex_def WithTimestamp_def IsZero_def zeroTime_def)


lemma Create_not_dir:
  assumes "map_of fs p \<noteq> Some Directory" "map_of fs (dirname p) = Some Directory"
  shows "Create fs p = (Inr \<lparr>h_path = p, h_pos = 0\<rparr>, AList.update p (File []) fs)"
proof (cases "map_of fs p")
  case None
  then show ?thesis using assms by (simp add: Create_def)
next
  case (Some n)
  then show ?thesis using assms by (cases n) (simp_all add: Create_def)
qed


section \<open>Readers over a written log\<close>

lemma concat_split:
  "j < length mss \<Longrightarrow> concat mss = concat (take j mss) @ mss ! j @ concat (drop (Suc j) mss)"
  by (metis append_take_drop_id concat.simps(2) concat_append Cons_nth_drop_Suc)

lemma nth_concat_take:
  assumes "j < length mss" "k < length (mss ! j)"
  shows "concat mss ! (length (concat (take j mss)) + k) = mss ! j ! k"
  by (subst concat_split [OF assms(1)]) (simp add: nth_append assms(2))

lemma length_concat_split:
  "j < length mss \<Longrightarrow>
   length (concat (take j mss)) + length (mss ! j) \<le> length (concat mss)"
proof -
  assume j: "j < length mss"
  have "length (concat mss)
     = length (concat (take j mss) @ mss ! j @ concat (drop (Suc j) mss))"
    using concat_split [OF j] by simp
  then show ?thesis by simp
qed

lemma of_nat_less_64:
  assumes "a < 2 ^ 64" "b < 2 ^ 64"
  shows "(of_nat a :: uint64) < of_nat b \<longleftrightarrow> a < b"
  using assms by (simp add: word_less_nat_alt unat_of_nat)

lemma of_nat_pred_less_64:
  assumes "0 < n" "n < 2 ^ 64"
  shows "(of_nat (n - 1) :: uint64) < of_nat n"
  using assms by (subst of_nat_less_64) simp_all

lemma wal_inv_nth:
  assumes inv: "wal_inv json wal fs mss ws" and j: "j < length mss" and k: "k < length (mss ! j)"
  shows "mss ! j ! k = log_entries ws ! (length (concat (take j mss)) + k)"
    and "length (concat (take j mss)) + k < length ws"
    and "Index (mss ! j ! k) = of_nat (length (concat (take j mss)) + k)"
proof -
  show 1: "mss ! j ! k = log_entries ws ! (length (concat (take j mss)) + k)"
    using nth_concat_take [OF j k] wal_invD(10) [OF inv] by simp
  show 2: "length (concat (take j mss)) + k < length ws"
    using length_concat_split [OF j] k wal_inv_count(1) [OF inv] by simp
  show "Index (mss ! j ! k) = of_nat (length (concat (take j mss)) + k)"
    using 1 2 by (simp add: Index_log_entries)
qed

lemma wal_inv_end:
  assumes inv: "wal_inv json wal fs mss ws" and j: "j < length mss"
  shows "length (concat (take j mss)) + length (mss ! j) \<le> length ws"
    and "length (concat (take j mss)) + length (mss ! j) < 2 ^ 64"
  using length_concat_split [OF j] wal_inv_count [OF inv] by simp_all

lemma wal_inv_file:
  assumes inv: "wal_inv json wal fs mss ws" and j: "j < length mss"
  shows "map_of fs (path (segments wal ! j)) = Some (File (seg_bytes (mss ! j)))"
  using seg_invD(2) [OF wal_invD(7) [OF inv j]] .

lemma loadSegment_at:
  assumes inv: "wal_inv json wal fs mss ws" and j: "j < length mss"
  shows "loadSegment fs (path (segments wal ! j))
     = Inr (loaded (path (segments wal ! j)) (firstIndex (segments wal ! j)) (mss ! j))"
proof (rule loadSegment_loaded)
  show "map_of fs (path (segments wal ! j)) = Some (File (seg_bytes (mss ! j)))"
    using wal_inv_file [OF inv j] .
  show "\<forall>m \<in> set (mss ! j). wf_entry m"
    using wal_inv_wf [OF inv j] by blast
  show "Sscanf_d_wal (Base (path (segments wal ! j))) = Inr (firstIndex (segments wal ! j))"
    using seg_invD(1) [OF wal_invD(7) [OF inv j]] by simp
qed

lemma loaded_simps [simp]:
  "path (loaded p b ms) = p" "firstIndex (loaded p b ms) = b" "fhandle (loaded p b ms) = None"
  "lastIndex (loaded p b ms) = (if ms = [] then b else Index (last ms))"
  "firstTimestamp (loaded p b ms) = (if ms = [] then zeroTime else In_UTC (Timestamp (hd ms)))"
  "lastTimestamp (loaded p b ms) = (if ms = [] then zeroTime else In_UTC (Timestamp (last ms)))"
  "fileLength (loaded p b ms) = of_nat (length (seg_bytes ms))"
  by (simp_all add: loaded_def)

lemma open_loaded_at:
  assumes inv: "wal_inv json wal fs mss ws" and j: "j < length mss"
  shows "segment_open fs (loaded (path (segments wal ! j)) (firstIndex (segments wal ! j)) (mss ! j))
     = (None, reader_seg wal mss j 0)"
  using wal_inv_file [OF inv j] by (simp add: segment_open_def reader_seg_def)

lemma readEntry_seg:
  assumes inv: "wal_inv json wal fs mss ws" and j: "j < length mss" and k: "k < length (mss ! j)"
  shows "readEntry (file_stream fs \<lparr>h_path = path (segments wal ! j),
                                     h_pos = length (seg_bytes (take k (mss ! j)))\<rparr>)
     = (Inr (stored (mss ! j ! k)),
        \<lparr>s_buf = seg_bytes (mss ! j), s_pos = length (seg_bytes (take (Suc k) (mss ! j)))\<rparr>)"
proof -
  let ?ms = "mss ! j"
  let ?r = "file_stream fs \<lparr>h_path = path (segments wal ! j),
                            h_pos = length (seg_bytes (take k ?ms))\<rparr>"
  have split: "?ms = take k ?ms @ ?ms ! k # drop (Suc k) ?ms"
    using k by (simp add: id_take_nth_drop [symmetric])
  have "seg_bytes ?ms = seg_bytes (take k ?ms @ ?ms ! k # drop (Suc k) ?ms)"
    using split by simp
  then have buf: "s_buf ?r = seg_bytes (take k ?ms) @ entry_bytes (?ms ! k) @ seg_bytes (drop (Suc k) ?ms)"
    using wal_inv_file [OF inv j] by (simp add: file_stream_def)
  have pos: "s_pos ?r = length (seg_bytes (take k ?ms))"
    by (simp add: file_stream_def)
  have wf: "wf_entry (?ms ! k)"
    using wal_inv_wf [OF inv j] k by simp
  have tk: "take (Suc k) ?ms = take k ?ms @ [?ms ! k]"
    using k by (simp add: take_Suc_conv_app_nth)
  show ?thesis
    unfolding readEntry_wf [OF buf pos wf]
    using wal_inv_file [OF inv j] by (simp add: file_stream_def tk)
qed

lemma IndexFunc_first:
  "j < length xs \<Longrightarrow> f (xs ! j) \<Longrightarrow> (\<And>i. i < j \<Longrightarrow> \<not> f (xs ! i)) \<Longrightarrow> IndexFunc f xs = Some j"
proof (induction xs arbitrary: j)
  case Nil
  then show ?case by simp
next
  case (Cons x xs)
  show ?case
  proof (cases j)
    case 0
    then show ?thesis using Cons.prems by simp
  next
    case (Suc j')
    have "\<not> f x" using Cons.prems(3) [of 0] Suc by simp
    moreover have "IndexFunc f xs = Some j'"
    proof (rule Cons.IH)
      show "j' < length xs" using Cons.prems(1) Suc by simp
      show "f (xs ! j')" using Cons.prems(2) Suc by simp
      show "\<not> f (xs ! i)" if "i < j'" for i
        using Cons.prems(3) [of "Suc i"] that Suc by simp
    qed
    ultimately show ?thesis using Suc by simp
  qed
qed

lemma IndexFunc_None:
  "(\<And>i. i < length xs \<Longrightarrow> \<not> f (xs ! i)) \<Longrightarrow> IndexFunc f xs = None"
proof (induction xs)
  case Nil
  then show ?case by simp
next
  case (Cons x xs)
  have "\<not> f x" using Cons.prems [of 0] by simp
  moreover have "IndexFunc f xs = None"
  proof (rule Cons.IH)
    show "\<not> f (xs ! i)" if "i < length xs" for i
      using Cons.prems [of "Suc i"] that by simp
  qed
  ultimately show ?case by simp
qed

lemma IndexFunc_path:
  assumes inv: "wal_inv json wal fs mss ws" and j: "j < length mss"
  shows "IndexFunc (\<lambda>s. path s = path (segments wal ! j)) (segments wal) = Some j"
proof (rule IndexFunc_first)
  show "j < length (segments wal)" using j wal_invD(2) [OF inv] by simp
  show "path (segments wal ! j) = path (segments wal ! j)" by simp
  show "path (segments wal ! i) \<noteq> path (segments wal ! j)" if "i < j" for i
    using wal_inv_path_neq [OF inv, of i j] that j by simp
qed

lemma lastIndex_reader_seg:
  assumes inv: "wal_inv json wal fs mss ws" and j: "j < length mss" and ne: "mss ! j \<noteq> []"
  shows "lastIndex (reader_seg wal mss j k)
     = of_nat (length (concat (take j mss)) + length (mss ! j) - 1)"
proof -
  have "last (mss ! j) = mss ! j ! (length (mss ! j) - 1)"
    using ne by (simp add: last_conv_nth)
  moreover have "Index (mss ! j ! (length (mss ! j) - 1))
     = of_nat (length (concat (take j mss)) + (length (mss ! j) - 1))"
    using ne by (intro wal_inv_nth(3) [OF inv j]) simp
  moreover have "length (concat (take j mss)) + (length (mss ! j) - 1)
     = length (concat (take j mss)) + length (mss ! j) - 1"
    using ne by (cases "mss ! j") simp_all
  moreover have "lastIndex (reader_seg wal mss j k) = Index (last (mss ! j))"
    using ne by (simp add: reader_seg_def)
  ultimately show ?thesis
    by (simp only:)
qed

lemma reader_seg_simps [simp]:
  "path (reader_seg wal mss j k) = path (segments wal ! j)"
  "fhandle (reader_seg wal mss j k)
     = Some \<lparr>h_path = path (segments wal ! j), h_pos = length (seg_bytes (take k (mss ! j)))\<rparr>"
  "firstIndex (reader_seg wal mss j k) = firstIndex (segments wal ! j)"
  by (simp_all add: reader_seg_def)

lemma reader_seg_move:
  "(reader_seg wal mss j k)\<lparr>fhandle := Some \<lparr>h_path = path (segments wal ! j),
      h_pos = length (seg_bytes (take k' (mss ! j)))\<rparr>\<rparr> = reader_seg wal mss j k'"
  by (simp add: reader_seg_def)

lemma Next_in:
  assumes inv: "wal_inv json wal fs mss ws" and j: "j < length mss" and k: "k < length (mss ! j)"
  shows "Next wal fs (reader_pos wal mss t j k)
     = (Inr (stored (mss ! j ! k)), reader_pos wal mss t j (Suc k))"
proof -
  have ne: "mss ! j \<noteq> []" using k by auto
  have b: "length (concat (take j mss)) + length (mss ! j) < 2 ^ 64"
    using wal_inv_end(2) [OF inv j] .
  have "\<not> (of_nat (length (concat (take j mss)) + k) :: uint64)
           > of_nat (length (concat (take j mss)) + length (mss ! j) - 1)"
    using b k by (subst of_nat_less_64) simp_all
  then have nle: "\<not> r_index (reader_pos wal mss t j k) > lastIndex (reader_seg wal mss j k)"
    unfolding lastIndex_reader_seg [OF inv j ne] by (simp add: reader_pos_def)
  have idx: "Index (mss ! j ! k) = of_nat (length (concat (take j mss)) + k)"
    using wal_inv_nth(3) [OF inv j k] .
  show ?thesis
    using nle readEntry_seg [OF inv j k]
    by (simp add: Next_def reader_pos_def set_pos_def idx reader_seg_move)
qed

lemma Next_end:
  assumes inv: "wal_inv json wal fs mss ws" and ne: "last mss \<noteq> []"
  shows "Next wal fs (reader_pos wal mss t (length mss - 1) (length (last mss)))
     = (Inl ErrNoSegmentsFound, reader_pos wal mss t (length mss - 1) (length (last mss)))"
proof -
  let ?j = "length mss - 1"
  have j: "?j < length mss" using wal_invD(1) [OF inv] by simp
  have lst: "last mss = mss ! ?j" using wal_invD(1) [OF inv] by (simp add: last_conv_nth)
  have ne': "mss ! ?j \<noteq> []" using ne lst by simp
  have b: "length (concat (take ?j mss)) + length (mss ! ?j) < 2 ^ 64"
    using wal_inv_end(2) [OF inv j] .
  have "(of_nat (length (concat (take ?j mss)) + length (mss ! ?j)) :: uint64)
           > of_nat (length (concat (take ?j mss)) + length (mss ! ?j) - 1)"
    using b ne' by (intro of_nat_pred_less_64) simp_all
  then have gt: "r_index (reader_pos wal mss t ?j (length (last mss)))
      > lastIndex (reader_seg wal mss ?j (length (last mss)))"
    unfolding lastIndex_reader_seg [OF inv j ne'] by (simp add: reader_pos_def lst)
  have ix: "IndexFunc (\<lambda>s. path s = path (segments wal ! ?j)) (segments wal) = Some ?j"
    using IndexFunc_path [OF inv j] .
  have len: "length (segments wal) = length mss" using wal_invD(2) [OF inv] .
  have sj: "length mss \<le> Suc ?j" by simp
  have "next_segment wal fs (reader_pos wal mss t ?j (length (last mss)))
          (reader_seg wal mss ?j (length (last mss)))
     = (Some ErrNoSegmentsFound, reader_pos wal mss t ?j (length (last mss)))"
    unfolding next_segment_def using ix len sj
    by (simp add: reader_pos_def del: One_nat_def)
  then show ?thesis
    using gt by (simp add: Next_def reader_pos_def del: One_nat_def)
qed

lemma Next_cross:
  assumes inv: "wal_inv json wal fs mss ws" and j: "Suc j < length mss"
    and ne: "mss ! j \<noteq> []" and ne': "mss ! Suc j \<noteq> []"
  shows "Next wal fs (reader_pos wal mss t j (length (mss ! j)))
     = (Inr (stored (mss ! Suc j ! 0)), reader_pos wal mss t (Suc j) 1)"
proof -
  have j0: "j < length mss" using j by simp
  have b: "length (concat (take j mss)) + length (mss ! j) < 2 ^ 64"
    using wal_inv_end(2) [OF inv j0] .
  have "(of_nat (length (concat (take j mss)) + length (mss ! j)) :: uint64)
           > of_nat (length (concat (take j mss)) + length (mss ! j) - 1)"
    using b ne by (intro of_nat_pred_less_64) simp_all
  then have gt: "r_index (reader_pos wal mss t j (length (mss ! j)))
      > lastIndex (reader_seg wal mss j (length (mss ! j)))"
    unfolding lastIndex_reader_seg [OF inv j0 ne] by (simp add: reader_pos_def)
  have ix: "IndexFunc (\<lambda>s. path s = path (segments wal ! j)) (segments wal) = Some j"
    using IndexFunc_path [OF inv j0] .
  have len: "length (segments wal) = length mss" using wal_invD(2) [OF inv] .
  have k0: "0 < length (mss ! Suc j)" using ne' by simp
  have idx: "Index (mss ! Suc j ! 0) = of_nat (length (concat (take (Suc j) mss)))"
    using wal_inv_nth(3) [OF inv j k0] by simp
  have rd: "readEntry (file_stream fs \<lparr>h_path = path (segments wal ! Suc j), h_pos = 0\<rparr>)
     = (Inr (stored (mss ! Suc j ! 0)),
        \<lparr>s_buf = seg_bytes (mss ! Suc j), s_pos = length (seg_bytes (take (Suc 0) (mss ! Suc j)))\<rparr>)"
    using readEntry_seg [OF inv j k0] by simp
  have ns: "next_segment wal fs (reader_pos wal mss t j (length (mss ! j)))
              (reader_seg wal mss j (length (mss ! j)))
     = (None, (reader_pos wal mss t j (length (mss ! j)))\<lparr>r_current := Some (reader_seg wal mss (Suc j) 0)\<rparr>)"
    using ix len j loadSegment_at [OF inv j] open_loaded_at [OF inv j]
    by (simp add: next_segment_def segment_close_def)
  show ?thesis
    using gt ns rd
    by (simp add: Next_def reader_pos_def set_pos_def idx reader_seg_move)
qed

lemma Nexts_add:
  "Nexts (a + b) wal fs r =
     (case Nexts a wal fs r of
        (xs, r') \<Rightarrow> (case Nexts b wal fs r' of (ys, r'') \<Rightarrow> (xs @ ys, r'')))"
  by (induction a arbitrary: r) (simp_all split: prod.split)

lemma Nexts_seg:
  assumes inv: "wal_inv json wal fs mss ws" and j: "j < length mss"
  shows "k \<le> length (mss ! j) \<Longrightarrow>
     Nexts (length (mss ! j) - k) wal fs (reader_pos wal mss t j k)
       = (map (\<lambda>m. Inr (stored m)) (drop k (mss ! j)), reader_pos wal mss t j (length (mss ! j)))"
proof (induction "length (mss ! j) - k" arbitrary: k)
  case 0
  then show ?case by simp
next
  case (Suc n)
  have k: "k < length (mss ! j)" using Suc.hyps(2) by simp
  have n: "n = length (mss ! j) - Suc k" using Suc.hyps(2) by simp
  have "Nexts (length (mss ! j) - Suc k) wal fs (reader_pos wal mss t j (Suc k))
       = (map (\<lambda>m. Inr (stored m)) (drop (Suc k) (mss ! j)),
          reader_pos wal mss t j (length (mss ! j)))"
    using k n by (intro Suc.hyps(1)) simp_all
  then have ih: "Nexts n wal fs (reader_pos wal mss t j (Suc k))
       = (map (\<lambda>m. Inr (stored m)) (drop (Suc k) (mss ! j)),
          reader_pos wal mss t j (length (mss ! j)))"
    using n by simp
  have d: "drop k (mss ! j) = mss ! j ! k # drop (Suc k) (mss ! j)"
    using k by (simp add: Cons_nth_drop_Suc)
  show ?case
    unfolding Suc.hyps(2) [symmetric]
    by (simp add: Next_in [OF inv j k] ih d)
qed

lemma Nexts_rest:
  assumes inv: "wal_inv json wal fs mss ws" and ne: "\<forall>j < length mss. mss ! j \<noteq> []"
  shows "j < length mss \<Longrightarrow>
     Nexts (length (concat (drop (Suc j) mss))) wal fs (reader_pos wal mss t j (length (mss ! j)))
       = (map (\<lambda>m. Inr (stored m)) (concat (drop (Suc j) mss)),
          reader_pos wal mss t (length mss - 1) (length (last mss)))"
proof (induction "length mss - Suc j" arbitrary: j)
  case 0
  then have j: "j = length mss - 1" by simp
  have "mss \<noteq> []" using 0 by auto
  then have "last mss = mss ! j"
    using j by (simp add: last_conv_nth)
  then show ?case using 0 j by simp
next
  case (Suc n)
  have j: "j < length mss" and j': "Suc j < length mss"
    using Suc.hyps(2) by simp_all
  let ?ms = "mss ! Suc j"
  have nej: "mss ! j \<noteq> []" and nes: "?ms \<noteq> []"
    using ne j j' by simp_all
  have d: "drop (Suc j) mss = ?ms # drop (Suc (Suc j)) mss"
    using j' by (simp add: Cons_nth_drop_Suc)
  have len: "length (concat (drop (Suc j) mss))
      = Suc ((length ?ms - 1) + length (concat (drop (Suc (Suc j)) mss)))"
    using nes by (cases ?ms) (simp_all add: d)
  have ih: "Nexts (length (concat (drop (Suc (Suc j)) mss))) wal fs
              (reader_pos wal mss t (Suc j) (length ?ms))
       = (map (\<lambda>m. Inr (stored m)) (concat (drop (Suc (Suc j)) mss)),
          reader_pos wal mss t (length mss - 1) (length (last mss)))"
    using Suc.hyps(2) j' by (intro Suc.hyps(1)) simp_all
  have one: "1 \<le> length ?ms" using nes by (cases ?ms) simp_all
  have sg: "Nexts (length ?ms - 1) wal fs (reader_pos wal mss t (Suc j) 1)
       = (map (\<lambda>m. Inr (stored m)) (drop 1 ?ms), reader_pos wal mss t (Suc j) (length ?ms))"
    using Nexts_seg [OF inv j' one] .
  have hd: "?ms = ?ms ! 0 # drop 1 ?ms"
    using nes by (cases ?ms) simp_all
  have "concat (drop (Suc j) mss) = ?ms ! 0 # drop 1 ?ms @ concat (drop (Suc (Suc j)) mss)"
    using hd d by (metis append_Cons concat.simps(2))
  then show ?case
    unfolding len
    by (simp add: Next_cross [OF inv j' nej nes] Nexts_add sg ih del: One_nat_def)
qed

lemma Nexts_all:
  assumes inv: "wal_inv json wal fs mss ws" and ne: "\<forall>j < length mss. mss ! j \<noteq> []"
  shows "Nexts (length ws) wal fs (reader_pos wal mss t 0 0)
       = (map (\<lambda>m. Inr (stored m)) (log_entries ws),
          reader_pos wal mss t (length mss - 1) (length (last mss)))"
proof -
  have j: "0 < length mss" using wal_invD(1) [OF inv] by simp
  have c: "concat mss = mss ! 0 @ concat (drop (Suc 0) mss)"
    using concat_split [OF j] by simp
  have c': "log_entries ws = mss ! 0 @ concat (drop (Suc 0) mss)"
    using c wal_invD(10) [OF inv] by simp
  have "length ws = length (log_entries ws)" by simp
  then have len: "length ws = length (mss ! 0) + length (concat (drop (Suc 0) mss))"
    unfolding c' by simp
  have "Nexts (length (mss ! 0) + length (concat (drop (Suc 0) mss))) wal fs
          (reader_pos wal mss t 0 0)
      = (map (\<lambda>m. Inr (stored m)) (mss ! 0 @ concat (drop (Suc 0) mss)),
         reader_pos wal mss t (length mss - 1) (length (last mss)))"
    unfolding Nexts_add
    using Nexts_seg [OF inv j, of 0 t] Nexts_rest [OF inv ne j, of t] by simp
  then show ?thesis
    by (simp only: len c')
qed

lemma all_nonempty:
  assumes inv: "wal_inv json wal fs mss ws" and ne: "last mss \<noteq> []"
  shows "\<forall>j < length mss. mss ! j \<noteq> []"
proof (intro allI impI)
  fix j assume j: "j < length mss"
  show "mss ! j \<noteq> []"
  proof (cases "j < length mss - 1")
    case True
    then show ?thesis using wal_invD(9) [OF inv] by simp
  next
    case False
    then have "j = length mss - 1" using j by simp
    moreover have "mss \<noteq> []" using j by auto
    ultimately show ?thesis using ne by (simp add: last_conv_nth)
  qed
qed

lemma log_inv:
  assumes new: "New json fs0 dir options = (Inr w0, fs1)"
    and dir: "dir \<noteq> []"
    and opts: "\<forall>option \<in> set options. config_only option"
    and below: "\<forall>q \<in> fst ` set fs0. dirname q \<noteq> dir"
    and fit: "fits ws"
    and wr: "Writes ws w0 fs1 = (werr, wal, fs)"
  shows "werr = None \<and>
     (\<exists>mss. wal_inv json wal fs mss ws \<and> (ws \<noteq> [] \<longrightarrow> (\<forall>j < length mss. mss ! j \<noteq> [])) \<and>
        wal_path wal = dir \<and> config wal = config w0)"
proof -
  have inv0: "wal_inv json w0 fs1 [[]] []" and p0: "wal_path w0 = dir"
    using New_inv [OF new dir opts below] by simp_all
  obtain wal' fs' mss' where W: "Writes ws w0 fs1 = (None, wal', fs')"
      "wal_inv json wal' fs' mss' ([] @ ws)" "[] @ ws \<noteq> [] \<longrightarrow> last mss' \<noteq> []"
      "config wal' = config w0" "wal_path wal' = wal_path w0"
    using Writes_inv [OF inv0, of ws] fit by auto
  have e: "werr = None" "wal = wal'" "fs = fs'"
    using W(1) wr by simp_all
  have inv: "wal_inv json wal fs mss' ws" using W(2) e by simp
  have "ws \<noteq> [] \<longrightarrow> (\<forall>j < length mss'. mss' ! j \<noteq> [])"
    using all_nonempty [OF inv] W(3) by simp
  then show ?thesis
    using e inv W(4,5) p0 by auto
qed

lemma IsZero_zeroTime [simp]: "IsZero zeroTime"
  by (simp add: IsZero_def zeroTime_def)

lemma index_match_iff:
  assumes "unat (firstIndex s) \<le> unat (lastIndex s)"
  shows "index_match i s \<longleftrightarrow> unat (firstIndex s) \<le> unat i \<and> unat i \<le> unat (lastIndex s)"
  using assms by (auto simp: index_match_def word_less_nat_alt word_unat_eq_iff)

lemma length_concat_take_Suc_le:
  assumes "j' < j" "j \<le> length mss"
  shows "length (concat (take j' mss)) + length (mss ! j') \<le> length (concat (take j mss))"
proof -
  have "j' < length (take j mss)" using assms by simp
  from length_concat_split [OF this] show ?thesis
    using assms by (simp add: min_absorb2)
qed

lemma locate_exists:
  "g < length (concat mss) \<Longrightarrow>
   \<exists>j k. j < length mss \<and> k < length (mss ! j) \<and> g = length (concat (take j mss)) + k"
proof (induction mss arbitrary: g)
  case Nil
  then show ?case by simp
next
  case (Cons ms mss)
  show ?case
  proof (cases "g < length ms")
    case True
    then have "0 < length (ms # mss) \<and> g < length ((ms # mss) ! 0)
        \<and> g = length (concat (take 0 (ms # mss))) + g" by simp
    then show ?thesis by blast
  next
    case False
    then have "g - length ms < length (concat mss)" using Cons.prems by simp
    from Cons.IH [OF this] obtain j k where jk: "j < length mss" "k < length (mss ! j)"
      "g - length ms = length (concat (take j mss)) + k" by blast
    have "Suc j < length (ms # mss) \<and> k < length ((ms # mss) ! Suc j)
        \<and> g = length (concat (take (Suc j) (ms # mss))) + k"
      using jk False by simp
    then show ?thesis by blast
  qed
qed

lemma scan_index_stop: "\<not> i > cur \<Longrightarrow> scan_index i cur ms = (cur, 0)"
  by (cases ms) simp_all

lemma scan_index_run:
  assumes "\<forall>n < length ms. unat (Index (ms ! n)) = c + n" and "unat cur < unat i"
  shows "scan_index i cur ms =
     (if ms = [] then (cur, 0)
      else (Index (ms ! min (unat i - c) (length ms - 1)),
            Suc (min (unat i - c) (length ms - 1))))"
  using assms
proof (induction ms arbitrary: cur c)
  case Nil
  then show ?case by simp
next
  case (Cons m rest)
  have gt: "i > cur" using Cons.prems(2) by (simp add: word_less_nat_alt)
  have m: "unat (Index m) = c" using Cons.prems(1) by auto
  have step: "scan_index i cur (m # rest)
      = (case scan_index i (Index m) rest of (i', n) \<Rightarrow> (i', Suc n))"
    using gt by simp
  show ?case
  proof (cases "unat i \<le> c")
    case True
    then have "\<not> i > Index m" using m by (simp add: word_less_nat_alt)
    then have "scan_index i (Index m) rest = (Index m, 0)" by (rule scan_index_stop)
    then show ?thesis using True step by simp
  next
    case False
    then have lt: "unat (Index m) < unat i" using m by simp
    have r: "\<forall>n < length rest. unat (Index (rest ! n)) = Suc c + n"
    proof (intro allI impI)
      fix n assume "n < length rest"
      then have "unat (Index ((m # rest) ! Suc n)) = c + Suc n"
        using Cons.prems(1) by (metis Suc_less_eq length_Cons)
      then show "unat (Index (rest ! n)) = Suc c + n" by simp
    qed
    note ih = Cons.IH [OF r lt]
    show ?thesis
    proof (cases "rest = []")
      case True
      then show ?thesis using step by simp
    next
      case ne: False
      have k: "min (unat i - c) (length rest) = Suc (min (unat i - Suc c) (length rest - 1))"
        using False ne by (cases rest) (auto simp: min_def)
      show ?thesis using step ih ne by (simp add: k)
    qed
  qed
qed

lemma position_at:
  assumes inv: "wal_inv json wal fs mss ws" and j: "j < length mss" and n: "n \<le> length (mss ! j)"
  shows "position reader (reader_seg wal mss j 0) \<lparr>h_path = path (segments wal ! j), h_pos = 0\<rparr> i'
           \<lparr>s_buf = seg_bytes (mss ! j), s_pos = length (seg_bytes (take n (mss ! j)))\<rparr>
     = Inr (reader\<lparr>r_index := i', r_current := Some (reader_seg wal mss j (n - 1))\<rparr>)"
proof (cases n)
  case 0
  have "gotoPreviousEntry \<lparr>s_buf = seg_bytes (mss ! j), s_pos = 0\<rparr>
      = (Some ErrNoPreviousEntry, \<lparr>s_buf = seg_bytes (mss ! j), s_pos = 0\<rparr>)"
    by (rule gotoPreviousEntry_zero) simp
  then show ?thesis
    using 0 by (simp add: position_def set_pos_def reader_seg_def)
next
  case (Suc n')
  let ?ms = "mss ! j"
  let ?r = "\<lparr>s_buf = seg_bytes ?ms, s_pos = length (seg_bytes (take n ?ms))\<rparr>"
  have k: "n' < length ?ms" using n Suc by simp
  have split: "?ms = take n' ?ms @ ?ms ! n' # drop (Suc n') ?ms"
    using k by (simp add: id_take_nth_drop [symmetric])
  have "seg_bytes ?ms = seg_bytes (take n' ?ms @ ?ms ! n' # drop (Suc n') ?ms)"
    using split by simp
  then have buf: "s_buf ?r = seg_bytes (take n' ?ms) @ entry_bytes (?ms ! n') @ seg_bytes (drop (Suc n') ?ms)"
    by simp
  have tk: "take (Suc n') ?ms = take n' ?ms @ [?ms ! n']"
    using k by (simp add: take_Suc_conv_app_nth)
  have pos: "s_pos ?r = length (seg_bytes (take n' ?ms)) + length (entry_bytes (?ms ! n'))"
    using Suc by (simp add: tk)
  have wf: "wf_entry (?ms ! n')"
    using wal_inv_wf [OF inv j] k by simp
  show ?thesis
    unfolding position_def gotoPreviousEntry_wf [OF buf pos wf]
    using Suc by (simp add: set_pos_def reader_seg_def)
qed

lemma load_found_sel:
  assumes inv: "wal_inv json wal fs mss ws" and j: "j < length mss"
    and sel: "sindex = Some j \<or> (sindex = None \<and> j = (if before_first then 0 else length mss - 1))"
  shows "load_found wal fs sindex before_first = Inr (reader_seg wal mss j 0)"
proof -
  have len: "length (segments wal) = length mss" using wal_invD(2) [OF inv] .
  have ne: "segments wal \<noteq> []" using len j by auto
  have "(case sindex of
              Some i \<Rightarrow> loadSegment fs (path (segments wal ! i))
            | None \<Rightarrow>
                if segments wal = [] then Inl PanicIndexOutOfRange
                else if before_first then loadSegment fs (path (segments wal ! 0))
                else loadSegment fs (path (segments wal ! (length (segments wal) - 1))))
      = loadSegment fs (path (segments wal ! j))"
    using sel ne len by auto
  then show ?thesis
    unfolding load_found_def
    by (simp add: loadSegment_at [OF inv j] open_loaded_at [OF inv j])
qed

lemma wal_inv_bounds:
  assumes inv: "wal_inv json wal fs mss ws" and j: "j < length mss"
  shows "unat (firstIndex (segments wal ! j)) = length (concat (take j mss))"
    and "mss ! j \<noteq> [] \<Longrightarrow>
         unat (lastIndex (segments wal ! j)) = length (concat (take j mss)) + length (mss ! j) - 1"
proof -
  have b: "length (concat (take j mss)) + length (mss ! j) < 2 ^ 64"
    using wal_inv_end(2) [OF inv j] .
  show "unat (firstIndex (segments wal ! j)) = length (concat (take j mss))"
    using wal_invD(8) [OF inv j] b by (simp add: unat_of_nat)
  assume ne: "mss ! j \<noteq> []"
  have "lastIndex (segments wal ! j) = Index (last (mss ! j))"
    using seg_invD(3) [OF wal_invD(7) [OF inv j]] ne by simp
  also have "last (mss ! j) = mss ! j ! (length (mss ! j) - 1)"
    using ne by (simp add: last_conv_nth)
  also have "Index (mss ! j ! (length (mss ! j) - 1))
     = of_nat (length (concat (take j mss)) + (length (mss ! j) - 1))"
    using ne by (intro wal_inv_nth(3) [OF inv j]) simp
  finally have "unat (lastIndex (segments wal ! j))
     = length (concat (take j mss)) + (length (mss ! j) - 1)"
    using b by (simp only: unat_of_nat) simp
  then show "unat (lastIndex (segments wal ! j)) = length (concat (take j mss)) + length (mss ! j) - 1"
    using ne by (cases "mss ! j") simp_all
qed

lemma index_match_at:
  assumes inv: "wal_inv json wal fs mss ws" and j: "j < length mss" and ne: "mss ! j \<noteq> []"
  shows "index_match i (segments wal ! j) \<longleftrightarrow>
     length (concat (take j mss)) \<le> unat i
     \<and> unat i < length (concat (take j mss)) + length (mss ! j)"
proof -
  have pos: "0 < length (mss ! j)" using ne by simp
  have f: "unat (firstIndex (segments wal ! j)) = length (concat (take j mss))"
    using wal_inv_bounds(1) [OF inv j] .
  have l: "unat (lastIndex (segments wal ! j)) = length (concat (take j mss)) + length (mss ! j) - 1"
    using wal_inv_bounds(2) [OF inv j ne] .
  have le: "unat (firstIndex (segments wal ! j)) \<le> unat (lastIndex (segments wal ! j))"
    unfolding f l using pos by arith
  show ?thesis
    unfolding index_match_iff [OF le] f l using pos by arith
qed

lemma seek_index_seg:
  assumes inv: "wal_inv json wal fs mss ws" and j: "j < length mss"
  shows "seek_index i b (file_stream fs \<lparr>h_path = path (segments wal ! j), h_pos = 0\<rparr>)
     = Inr (fst (scan_index i b (mss ! j)),
            \<lparr>s_buf = seg_bytes (mss ! j),
             s_pos = length (seg_bytes (take (snd (scan_index i b (mss ! j))) (mss ! j)))\<rparr>)"
proof -
  let ?r = "file_stream fs \<lparr>h_path = path (segments wal ! j), h_pos = 0\<rparr>"
  have buf: "s_buf ?r = [] @ seg_bytes (mss ! j)"
    using wal_inv_file [OF inv j] by (simp add: file_stream_def)
  have pos: "s_pos ?r = length ([] :: byte list)"
    by (simp add: file_stream_def)
  have wf: "\<forall>m \<in> set (mss ! j). wf_entry m"
    using wal_inv_wf [OF inv j] by blast
  show ?thesis
    unfolding seek_index_scan [OF buf pos wf]
    using wal_inv_file [OF inv j] by (simp add: file_stream_def)
qed

lemma scan_index_seg:
  assumes inv: "wal_inv json wal fs mss ws" and j: "j < length mss" and ne: "mss ! j \<noteq> []"
  shows "scan_index i (firstIndex (segments wal ! j)) (mss ! j)
     = (of_nat (length (concat (take j mss))
                + min (unat i - length (concat (take j mss))) (length (mss ! j) - 1)),
        if unat i \<le> length (concat (take j mss)) then 0
        else Suc (min (unat i - length (concat (take j mss))) (length (mss ! j) - 1)))"
proof (cases "unat i \<le> length (concat (take j mss))")
  case True
  then have "\<not> i > firstIndex (segments wal ! j)"
    using wal_inv_bounds(1) [OF inv j] by (simp add: word_less_nat_alt)
  then have "scan_index i (firstIndex (segments wal ! j)) (mss ! j)
      = (firstIndex (segments wal ! j), 0)"
    by (rule scan_index_stop)
  then show ?thesis
    using True wal_invD(8) [OF inv j] by simp
next
  case False
  let ?c = "length (concat (take j mss))"
  let ?k = "min (unat i - ?c) (length (mss ! j) - 1)"
  have lt: "unat (firstIndex (segments wal ! j)) < unat i"
    using False wal_inv_bounds(1) [OF inv j] by simp
  have b: "?c + length (mss ! j) < 2 ^ 64"
    using wal_inv_end(2) [OF inv j] .
  have ix: "\<forall>n < length (mss ! j). unat (Index (mss ! j ! n)) = ?c + n"
  proof (intro allI impI)
    fix n assume n: "n < length (mss ! j)"
    have "Index (mss ! j ! n) = of_nat (?c + n)"
      using wal_inv_nth(3) [OF inv j n] .
    moreover have "?c + n < 2 ^ 64" using b n by simp
    ultimately show "unat (Index (mss ! j ! n)) = ?c + n"
      by (simp only: unat_of_nat) simp
  qed
  have k: "?k < length (mss ! j)" using ne by (cases "mss ! j") simp_all
  have "Index (mss ! j ! ?k) = of_nat (?c + ?k)"
    using wal_inv_nth(3) [OF inv j k] .
  then show ?thesis
    unfolding scan_index_run [OF ix lt] using False ne by (simp only: if_False)
qed

lemma Reader_index:
  assumes inv: "wal_inv json wal fs mss ws" and j: "j < length mss" and ne: "mss ! j \<noteq> []"
    and opts: "apply_options options \<lparr>r_index = 0, r_timestamp = zeroTime, r_current = None\<rparr>
       = Inr \<lparr>r_index = i, r_timestamp = zeroTime, r_current = None\<rparr>"
    and sel: "IndexFunc (index_match i) (segments wal) = Some j
       \<or> (IndexFunc (index_match i) (segments wal) = None \<and> j = length mss - 1)"
  shows "Wal_Reader wal fs options
     = Inr (reader_pos wal mss zeroTime j
              (min (unat i - length (concat (take j mss))) (length (mss ! j) - 1)))"
proof -
  let ?c = "length (concat (take j mss))"
  let ?k = "min (unat i - ?c) (length (mss ! j) - 1)"
  let ?bf = "segments wal \<noteq> [] \<and> i < firstIndex (segments wal ! 0)"
  have j0: "0 < length mss" using wal_invD(1) [OF inv] by simp
  have "firstIndex (segments wal ! 0) = 0"
    using wal_invD(8) [OF inv j0] by simp
  then have nbf: "\<not> ?bf" by simp
  have lf: "load_found wal fs (IndexFunc (index_match i) (segments wal)) ?bf
      = Inr (reader_seg wal mss j 0)"
    using sel nbf by (intro load_found_sel [OF inv j]) auto
  have k: "?k < length (mss ! j)" using ne by (cases "mss ! j") simp_all
  have n: "(if unat i \<le> ?c then 0 else Suc ?k) \<le> length (mss ! j)"
    using k by simp
  have k': "(if unat i \<le> ?c then 0 else Suc ?k) - 1 = ?k"
    by simp
  have ps: "position \<lparr>r_index = i, r_timestamp = zeroTime, r_current = None\<rparr>
              (reader_seg wal mss j 0) \<lparr>h_path = path (segments wal ! j), h_pos = 0\<rparr>
              (of_nat (?c + ?k))
              \<lparr>s_buf = seg_bytes (mss ! j),
               s_pos = length (seg_bytes (take (if unat i \<le> ?c then 0 else Suc ?k) (mss ! j)))\<rparr>
      = Inr (reader_pos wal mss zeroTime j ?k)"
    unfolding position_at [OF inv j n] k' by (simp add: reader_pos_def)
  have sk: "seek_index i (firstIndex (segments wal ! j))
              (file_stream fs \<lparr>h_path = path (segments wal ! j), h_pos = 0\<rparr>)
      = Inr (of_nat (?c + ?k),
             \<lparr>s_buf = seg_bytes (mss ! j),
              s_pos = length (seg_bytes (take (if unat i \<le> ?c then 0 else Suc ?k) (mss ! j)))\<rparr>)"
    unfolding seek_index_seg [OF inv j] scan_index_seg [OF inv j ne] by simp
  have h0: "fhandle (reader_seg wal mss j 0) = Some \<lparr>h_path = path (segments wal ! j), h_pos = 0\<rparr>"
    by simp
  show ?thesis
    unfolding Wal_Reader_def opts
    by (simp only: lf sum.case Reader.simps IsZero_zeroTime if_True h0 option.case
          reader_seg_simps(3) sk prod.case ps)
qed

lemma Reader_plain:
  assumes inv: "wal_inv json wal fs mss ws" and ne: "\<forall>j < length mss. mss ! j \<noteq> []"
  shows "Wal_Reader wal fs [] = Inr (reader_pos wal mss zeroTime 0 0)"
proof -
  have j: "0 < length mss" using wal_invD(1) [OF inv] by simp
  have ne0: "mss ! 0 \<noteq> []" using ne j by simp
  have m: "index_match 0 (segments wal ! 0)"
    unfolding index_match_at [OF inv j ne0] using ne0 by simp
  have "IndexFunc (index_match 0) (segments wal) = Some 0"
    using m j wal_invD(2) [OF inv] by (intro IndexFunc_first) simp_all
  then have "Wal_Reader wal fs []
     = Inr (reader_pos wal mss zeroTime 0
              (min (unat (0 :: uint64) - length (concat (take 0 mss))) (length (mss ! 0) - 1)))"
    by (intro Reader_index [OF inv j ne0]) simp_all
  then show ?thesis by simp
qed

lemma wal_inv_total:
  assumes inv: "wal_inv json wal fs mss ws"
  shows "length (concat (take (length mss - 1) mss)) + length (mss ! (length mss - 1)) = length ws"
proof -
  have j: "length mss - 1 < length mss" using wal_invD(1) [OF inv] by simp
  have "drop (Suc (length mss - 1)) mss = []" by simp
  then have "concat mss = concat (take (length mss - 1) mss) @ mss ! (length mss - 1)"
    using concat_split [OF j] by simp
  then have "length (concat mss)
      = length (concat (take (length mss - 1) mss)) + length (mss ! (length mss - 1))"
    by (metis length_append)
  then show ?thesis using wal_inv_count(1) [OF inv] by simp
qed

lemma Reader_WithIndex_pos:
  assumes inv: "wal_inv json wal fs mss ws" and ne: "\<forall>j < length mss. mss ! j \<noteq> []"
  shows "\<exists>j k. j < length mss \<and> k < length (mss ! j) \<and>
     length (concat (take j mss)) + k = min (unat i) (length ws - 1) \<and>
     Wal_Reader wal fs [WithIndex i] = Inr (reader_pos wal mss zeroTime j k)"
proof -
  have len: "length (segments wal) = length mss" using wal_invD(2) [OF inv] .
  have opts: "apply_options [WithIndex i] \<lparr>r_index = 0, r_timestamp = zeroTime, r_current = None\<rparr>
       = Inr \<lparr>r_index = i, r_timestamp = zeroTime, r_current = None\<rparr>"
    by (simp add: WithIndex_def)
  show ?thesis
  proof (cases "unat i < length ws")
    case True
    then have "unat i < length (concat mss)" using wal_inv_count(1) [OF inv] by simp
    from locate_exists [OF this] obtain j k where jk: "j < length mss" "k < length (mss ! j)"
      "unat i = length (concat (take j mss)) + k" by blast
    have nej: "mss ! j \<noteq> []" using jk(2) by auto
    have "IndexFunc (index_match i) (segments wal) = Some j"
    proof (rule IndexFunc_first)
      show "j < length (segments wal)" using jk(1) len by simp
      show "index_match i (segments wal ! j)"
        unfolding index_match_at [OF inv jk(1) nej] using jk by simp
      show "\<not> index_match i (segments wal ! j')" if "j' < j" for j'
      proof -
        have j': "j' < length mss" using that jk(1) by simp
        have ne': "mss ! j' \<noteq> []" using ne j' by simp
        have "length (concat (take j' mss)) + length (mss ! j') \<le> length (concat (take j mss))"
          using that jk(1) by (intro length_concat_take_Suc_le) simp_all
        then show ?thesis
          unfolding index_match_at [OF inv j' ne'] using jk(3) by simp
      qed
    qed
    then have "Wal_Reader wal fs [WithIndex i]
       = Inr (reader_pos wal mss zeroTime j
                (min (unat i - length (concat (take j mss))) (length (mss ! j) - 1)))"
      using opts by (intro Reader_index [OF inv jk(1) nej]) simp_all
    moreover have "min (unat i - length (concat (take j mss))) (length (mss ! j) - 1) = k"
      using jk by simp
    moreover have "length (concat (take j mss)) + k = min (unat i) (length ws - 1)"
      using jk(3) True by simp
    ultimately show ?thesis using jk(1,2) by auto
  next
    case False
    let ?j = "length mss - 1"
    have j: "?j < length mss" using wal_invD(1) [OF inv] by simp
    have nej: "mss ! ?j \<noteq> []" using ne j by blast
    have tot: "length (concat (take ?j mss)) + length (mss ! ?j) = length ws"
      using wal_inv_total [OF inv] .
    have "IndexFunc (index_match i) (segments wal) = None"
    proof (rule IndexFunc_None)
      fix j' assume "j' < length (segments wal)"
      then have j': "j' < length mss" using len by simp
      have ne': "mss ! j' \<noteq> []" using ne j' by simp
      show "\<not> index_match i (segments wal ! j')"
        unfolding index_match_at [OF inv j' ne'] using wal_inv_end(1) [OF inv j'] False by simp
    qed
    then have "Wal_Reader wal fs [WithIndex i]
       = Inr (reader_pos wal mss zeroTime ?j
                (min (unat i - length (concat (take ?j mss))) (length (mss ! ?j) - 1)))"
      using opts by (intro Reader_index [OF inv j nej]) simp_all
    moreover have "min (unat i - length (concat (take ?j mss))) (length (mss ! ?j) - 1)
        = length (mss ! ?j) - 1"
      using tot False by simp
    moreover have "length (concat (take ?j mss)) + (length (mss ! ?j) - 1) = min (unat i) (length ws - 1)"
      using tot False nej by (cases "mss ! ?j") simp_all
    moreover have "length (mss ! ?j) - 1 < length (mss ! ?j)"
      using nej by simp
    ultimately show ?thesis using j by metis
  qed
qed

lemma first_last_index:
  assumes inv: "wal_inv json wal fs mss ws" and ne: "\<forall>j < length mss. mss ! j \<noteq> []"
  shows "firstIndex (hd (segments wal)) = 0"
    and "unat (lastIndex (last (segments wal))) = length ws - 1"
proof -
  have len: "length (segments wal) = length mss" using wal_invD(2) [OF inv] .
  have j0: "0 < length mss" using wal_invD(1) [OF inv] by simp
  have sne: "segments wal \<noteq> []" using len j0 by auto
  have "hd (segments wal) = segments wal ! 0" using sne by (simp add: hd_conv_nth)
  then show "firstIndex (hd (segments wal)) = 0"
    using wal_invD(8) [OF inv j0] by simp
  let ?j = "length mss - 1"
  have j: "?j < length mss" using j0 by simp
  have nej: "mss ! ?j \<noteq> []" using ne j by blast
  have "last (segments wal) = segments wal ! ?j" using sne len by (simp add: last_conv_nth)
  then show "unat (lastIndex (last (segments wal))) = length ws - 1"
    using wal_inv_bounds(2) [OF inv j nej] wal_inv_total [OF inv] by simp
qed

lemma map_Index_log_entries: "map Index (log_entries ws) = map of_nat [0..<length ws]"
  by (rule nth_equalityI) (simp_all add: Index_log_entries)

lemma example_fits: "fits [(example_time 1, [])]"
  by (simp add: fits_def)

lemma example_Writes:
  "Writes [(example_time 1, [])] example_wal0 example_fs0 = (None, example_wal1, example_fs1)"
  using example_Write by simp


lemma Reader_empty:
  assumes inv: "wal_inv json wal fs [[]] []"
  shows "Wal_Reader wal fs [] = Inr (reader_pos wal [[]] zeroTime 0 0)"
    and "Next wal fs (reader_pos wal [[]] zeroTime 0 0)
       = (Inl EOF, reader_pos wal [[]] zeroTime 0 0)"
proof -
  let ?mss = "[[]] :: Entry list list"
  let ?rd = "\<lparr>r_index = 0, r_timestamp = zeroTime, r_current = None\<rparr>"
  have j: "0 < length ?mss" by simp
  have len: "length (segments wal) = 1" using wal_invD(2) [OF inv] by simp
  have f0: "firstIndex (segments wal ! 0) = 0"
    using wal_invD(8) [OF inv j] by simp
  have "index_match 0 (segments wal ! 0)"
    by (simp add: index_match_def f0)
  then have ix: "IndexFunc (index_match 0) (segments wal) = Some 0"
    using len by (intro IndexFunc_first) simp_all
  have lf: "load_found wal fs (IndexFunc (index_match 0) (segments wal))
       (segments wal \<noteq> [] \<and> 0 < firstIndex (segments wal ! 0))
      = Inr (reader_seg wal ?mss 0 0)"
    unfolding ix by (intro load_found_sel [OF inv j]) simp
  have h0: "fhandle (reader_seg wal ?mss 0 0) = Some \<lparr>h_path = path (segments wal ! 0), h_pos = 0\<rparr>"
    by simp
  have sk: "seek_index 0 (firstIndex (segments wal ! 0))
              (file_stream fs \<lparr>h_path = path (segments wal ! 0), h_pos = 0\<rparr>)
      = Inr (0, \<lparr>s_buf = seg_bytes (?mss ! 0), s_pos = length (seg_bytes (take 0 (?mss ! 0)))\<rparr>)"
    unfolding seek_index_seg [OF inv j] by (simp add: f0)
  have n: "0 \<le> length (?mss ! 0)" by simp
  have ps: "position ?rd (reader_seg wal ?mss 0 0) \<lparr>h_path = path (segments wal ! 0), h_pos = 0\<rparr> 0
              \<lparr>s_buf = seg_bytes (?mss ! 0), s_pos = length (seg_bytes (take 0 (?mss ! 0)))\<rparr>
      = Inr (reader_pos wal ?mss zeroTime 0 0)"
    unfolding position_at [OF inv j n] by (simp add: reader_pos_def)
  show "Wal_Reader wal fs [] = Inr (reader_pos wal ?mss zeroTime 0 0)"
    unfolding Wal_Reader_def apply_options.simps
    by (simp only: lf sum.case Reader.simps IsZero_zeroTime if_True h0 option.case
          reader_seg_simps(3) sk prod.case ps)
  have fl: "map_of fs (path (segments wal ! 0)) = Some (File (seg_bytes (?mss ! 0)))"
    using wal_inv_file [OF inv j] .
  have rd: "readEntry (file_stream fs \<lparr>h_path = path (segments wal ! 0), h_pos = 0\<rparr>)
      = (Inl EOF, file_stream fs \<lparr>h_path = path (segments wal ! 0), h_pos = 0\<rparr>)"
    using fl by (intro readEntry_EOF) (simp add: file_stream_def)
  have li: "lastIndex (reader_seg wal ?mss 0 0) = 0"
    by (simp add: reader_seg_def f0)
  show "Next wal fs (reader_pos wal ?mss zeroTime 0 0)
       = (Inl EOF, reader_pos wal ?mss zeroTime 0 0)"
    using rd li
    by (simp add: Next_def reader_pos_def set_pos_def file_stream_def reader_seg_def)
qed


lemma example_cycle:
  "cycle example_wal1 example_fs1
     = (None, example_wal_cycled, example_fs_cycled,
        [(''/d/00000000000000000000.wal'', contents example_fs1 ''/d/00000000000000000000.wal'')])"
  by code_simp

lemma example_Load_cycled:
  "Load example_Decode example_Glob example_fs_cycled ''/d'' = Inr example_wal_cycled"
  by code_simp

lemma example_Writes2:
  "Writes [(example_time 1, []), (example_time 3, [])] example_wal0 example_fs0
     = (None, example_wal2, example_fs2)"
  by code_simp



section \<open>Loading what was written\<close>

lemma eq_len_append_less:
  "length xs = length ys \<Longrightarrow>
   xs @ us < ys @ vs \<longleftrightarrow> xs < ys \<or> (xs = ys \<and> us < (vs :: char list))"
  by (induction xs ys rule: list_induct2) auto

lemma div_mod_less:
  assumes "(m :: int) < n"
  shows "m div 10 < n div 10 \<or> (m div 10 = n div 10 \<and> m mod 10 < n mod 10)"
  using assms by presburger

lemma decimal_less:
  "0 \<le> m \<Longrightarrow> m < n \<Longrightarrow> n < 10 ^ k \<Longrightarrow> decimal k m < decimal k n"
proof (induction k arbitrary: m n)
  case 0
  then show ?case by simp
next
  case (Suc k)
  have len: "length (decimal k (m div 10)) = length (decimal k (n div 10))" by simp
  have n10: "n div 10 < 10 ^ k" using Suc.prems(3) by simp
  have m0: "0 \<le> m div 10" using Suc.prems(1) by simp
  from div_mod_less [OF Suc.prems(2)] show ?case
  proof
    assume "m div 10 < n div 10"
    then have "decimal k (m div 10) < decimal k (n div 10)"
      using m0 n10 by (intro Suc.IH)
    then show ?thesis
      by (simp add: eq_len_append_less [OF len])
  next
    assume e: "m div 10 = n div 10 \<and> m mod 10 < n mod 10"
    have "0 \<le> m mod 10" by simp
    then have "nat (m mod 10) < nat (n mod 10)" using e by linarith
    moreover have "nat (n mod 10) < 10" by (rule mod10_digit)
    ultimately have "digit_char (nat (m mod 10)) < digit_char (nat (n mod 10))"
      by (rule digit_char_less)
    then show ?thesis
      using e by (simp add: eq_len_append_less)
  qed
qed

lemma Sprintf_less:
  assumes "a < b"
  shows "Sprintf_020d_wal a < Sprintf_020d_wal b"
proof -
  have "uint a < uint b" using assms by (simp add: word_less_def)
  then have "decimal 20 (uint a) < decimal 20 (uint b)"
    using uint64_lt_pow10 [of b] by (intro decimal_less) simp_all
  then show ?thesis
    by (simp add: Sprintf_020d_wal_def eq_len_append_less)
qed

lemma Join_less: "a < b \<Longrightarrow> Join d a < Join d b"
  unfolding Join_def by (simp add: eq_len_append_less)

lemma paths_sorted:
  assumes inv: "wal_inv json wal fs mss ws"
  shows "sorted (map path (segments wal))" and "distinct (map path (segments wal))"
proof -
  have len: "length (segments wal) = length mss" using wal_invD(2) [OF inv] .
  have "sorted_wrt (<) (map path (segments wal))"
    unfolding sorted_wrt_iff_nth_less
  proof (intro allI impI)
    fix i j assume ij: "i < j" "j < length (map path (segments wal))"
    then have j: "j < length mss" and i: "i < length mss" using len by simp_all
    have ne: "mss ! i \<noteq> []"
      using wal_invD(9) [OF inv, of i] ij(1) j by simp
    have lt: "length (concat (take i mss)) < length (concat (take j mss))"
      using ij(1) j ne by (intro length_concat_take_mono) simp_all
    have b: "length (concat (take j mss)) < 2 ^ 64"
      using length_concat_take_le [of j mss] wal_inv_count [OF inv] by simp
    have "firstIndex (segments wal ! i) < firstIndex (segments wal ! j)"
      unfolding wal_invD(8) [OF inv i] wal_invD(8) [OF inv j]
      using lt b by (subst of_nat_less_64) simp_all
    then have "path (segments wal ! i) < path (segments wal ! j)"
      unfolding seg_invD(1) [OF wal_invD(7) [OF inv i]] seg_invD(1) [OF wal_invD(7) [OF inv j]]
      by (intro Join_less Sprintf_less)
    then show "map path (segments wal) ! i < map path (segments wal) ! j"
      using i j len by simp
  qed
  then show "sorted (map path (segments wal))" and "distinct (map path (segments wal))"
    by (simp_all add: strict_sorted_iff)
qed

lemma load_segments_filter:
  "\<forall>p \<in> set qs. map_of fs p \<noteq> None \<Longrightarrow>
   load_segments fs qs = load_segments fs (filter (is_segment_file fs) qs)"
proof (induction qs)
  case Nil
  then show ?case by simp
next
  case (Cons q qs)
  then obtain info where i: "map_of fs q = Some info" by auto
  have ih: "load_segments fs qs = load_segments fs (filter (is_segment_file fs) qs)"
    using Cons by simp
  show ?case
  proof (cases "is_segment_file fs q")
    case True
    then have "\<not> IsDir info \<and> Ext (Base q) = ''.wal''"
      using i by (auto simp: is_segment_file_def IsDir_def)
    then show ?thesis
      using True i by (simp add: Lstat_def ih [symmetric] cong: sum.case_cong)
  next
    case False
    then have "\<not> (\<not> IsDir info \<and> Ext (Base q) = ''.wal'')"
      using i by (cases info) (auto simp: is_segment_file_def IsDir_def)
    then show ?thesis
      using False i by (auto simp: Lstat_def ih [symmetric])
  qed
qed

lemma load_segments_paths:
  assumes inv: "wal_inv json wal fs mss ws"
  shows "\<forall>j \<in> set js. j < length mss \<Longrightarrow>
     load_segments fs (map (\<lambda>j. path (segments wal ! j)) js)
       = Inr (map (\<lambda>j. loaded (path (segments wal ! j)) (firstIndex (segments wal ! j)) (mss ! j)) js)"
proof (induction js)
  case Nil
  then show ?case by simp
next
  case (Cons j js)
  have j: "j < length mss" using Cons.prems by simp
  have f: "map_of fs (path (segments wal ! j)) = Some (File (seg_bytes (mss ! j)))"
    using wal_inv_file [OF inv j] .
  have e: "Ext (Base (path (segments wal ! j))) = ''.wal''"
    using seg_invD(1) [OF wal_invD(7) [OF inv j]] by simp
  have ih: "load_segments fs (map (\<lambda>j. path (segments wal ! j)) js)
       = Inr (map (\<lambda>j. loaded (path (segments wal ! j)) (firstIndex (segments wal ! j)) (mss ! j)) js)"
    using Cons by simp
  show ?case
    using f e ih loadSegment_at [OF inv j] by (simp add: Lstat_def IsDir_def)
qed

lemma segment_files:
  assumes inv: "wal_inv json wal fs mss ws"
    and d: "distinct ps"
    and s: "set ps = set (filter (\<lambda>q. dirname q = wal_path wal \<and> q \<noteq> wal_path wal) (map fst fs))"
  shows "filter (is_segment_file fs) (sort ps) = map path (segments wal)"
proof -
  let ?dir = "wal_path wal"
  have len: "length (segments wal) = length mss" using wal_invD(2) [OF inv] .
  have set_eq: "set (filter (is_segment_file fs) ps) = set (map path (segments wal))"
  proof (intro set_eqI iffI)
    fix p assume "p \<in> set (filter (is_segment_file fs) ps)"
    then have p: "p \<in> set ps" "is_segment_file fs p" by simp_all
    then have dp: "dirname p = ?dir" and ex: "map_of fs p \<noteq> None"
      using s by (auto simp: is_segment_file_def)
    from wal_invD(15) [OF inv ex dp] show "p \<in> set (map path (segments wal))"
    proof (elim disjE)
      assume "p = Join ?dir ''config.json''"
      then have "Ext (Base p) = ''.json''" by (simp add: Base_Join)
      then show ?thesis using p(2) by (simp add: is_segment_file_def)
    next
      assume "p \<in> path ` set (segments wal)"
      then show ?thesis by simp
    next
      assume "map_of fs p = Some Directory \<and> length p \<le> length ?dir"
      then show ?thesis using p(2) by (simp add: is_segment_file_def)
    qed
  next
    fix p assume "p \<in> set (map path (segments wal))"
    then obtain j where j: "j < length mss" and pj: "p = path (segments wal ! j)"
      using len by (auto simp: in_set_conv_nth)
    have f: "map_of fs p = Some (File (seg_bytes (mss ! j)))"
      using wal_inv_file [OF inv j] pj by simp
    have pp: "p = Join ?dir (Sprintf_020d_wal (firstIndex (segments wal ! j)))"
      using seg_invD(1) [OF wal_invD(7) [OF inv j]] pj by simp
    have "p \<in> fst ` set fs"
      using f by (metis map_of_eq_None_iff option.distinct(1))
    moreover have "dirname p = ?dir" using wal_invD(4) [OF inv] pp by simp
    moreover have "p \<noteq> ?dir" using pp by simp
    ultimately have "p \<in> set ps" using s by simp
    moreover have "is_segment_file fs p"
      using f pp by (simp add: is_segment_file_def)
    ultimately show "p \<in> set (filter (is_segment_file fs) ps)" by simp
  qed
  have "filter (is_segment_file fs) (sort ps) = sort (filter (is_segment_file fs) ps)"
    by (simp add: filter_sort)
  also have "\<dots> = map path (segments wal)"
  proof (rule sorted_distinct_set_unique)
    show "sorted (sort (filter (is_segment_file fs) ps))" by simp
    show "distinct (sort (filter (is_segment_file fs) ps))" using d by simp
    show "sorted (map path (segments wal))" using paths_sorted(1) [OF inv] .
    show "distinct (map path (segments wal))" using paths_sorted(2) [OF inv] .
    show "set (sort (filter (is_segment_file fs) ps)) = set (map path (segments wal))"
      using set_eq by simp
  qed
  finally show ?thesis .
qed

lemma load_segments_all:
  assumes inv: "wal_inv json wal fs mss ws"
    and d: "distinct ps"
    and s: "set ps = set (filter (\<lambda>q. dirname q = wal_path wal \<and> q \<noteq> wal_path wal) (map fst fs))"
  shows "load_segments fs (sort ps)
     = Inr (map (\<lambda>j. loaded (path (segments wal ! j)) (firstIndex (segments wal ! j)) (mss ! j))
              [0..<length mss])"
proof -
  have len: "length (segments wal) = length mss" using wal_invD(2) [OF inv] .
  have ex: "\<forall>p \<in> set (sort ps). map_of fs p \<noteq> None"
    using s by (auto simp: map_of_eq_None_iff)
  have "map path (segments wal) = map (\<lambda>j. path (segments wal ! j)) [0..<length mss]"
    using len by (intro nth_equalityI) simp_all
  then show ?thesis
    unfolding load_segments_filter [OF ex] segment_files [OF inv d s]
    by (simp add: load_segments_paths [OF inv])
qed

lemma Close_inv:
  assumes inv: "wal_inv json wal fs mss ws"
  shows "Close wal fs
     = (None,
        wal\<lparr>segments := (segments wal)[length mss - 1 := (segments wal ! (length mss - 1))\<lparr>fhandle := None\<rparr>]\<rparr>,
        [(path (segments wal ! (length mss - 1)), contents fs (path (segments wal ! (length mss - 1))))])"
  using wal_invD(3,14) [OF inv]
  by (simp add: Close_def segment_flush_def segment_close_def)

lemma map_update_same:
  assumes "f y = f (xs ! i)"
  shows "map f (xs[i := y]) = map f xs"
  using assms by (metis list_update_id map_update)

lemma Load_inv:
  assumes inv: "wal_inv json wal fs mss ws"
    and dec: "json_Decode (json (config wal)) = Some cfg"
    and g: "Glob fs (Join (wal_path wal) ''*'') = Inr ps"
    and d: "distinct ps"
    and s: "set ps = set (filter (\<lambda>q. dirname q = wal_path wal \<and> q \<noteq> wal_path wal) (map fst fs))"
  shows "\<exists>wl. Load json_Decode Glob fs (wal_path wal) = Inr wl \<and>
     index wl = index wal \<and> config wl = cfg \<and> wal_path wl = wal_path wal \<and>
     index wl = (if fileLength (last (segments wl)) = 0 then lastIndex (last (segments wl))
                 else lastIndex (last (segments wl)) + 1) \<and>
     map firstIndex (segments wl) = map firstIndex (segments wal) \<and>
     map lastIndex (segments wl) = map lastIndex (segments wal) \<and>
     map fileLength (segments wl) = map fileLength (segments wal) \<and>
     map path (segments wl) = map path (segments wal)"
proof -
  let ?n = "length mss"
  let ?L = "\<lambda>j. loaded (path (segments wal ! j)) (firstIndex (segments wal ! j)) (mss ! j)"
  let ?segs = "map ?L [0..<?n]"
  let ?j = "?n - 1"
  have n: "0 < ?n" using wal_invD(1) [OF inv] by simp
  have j: "?j < ?n" using n by simp
  have len: "length (segments wal) = ?n" using wal_invD(2) [OF inv] .
  have ls: "load_segments fs (sort ps) = Inr ?segs"
    using load_segments_all [OF inv d s] .
  have ne: "?segs \<noteq> []" using n by simp
  have lst: "last ?segs = ?L ?j"
    using n by (simp add: last_map)
  have fl: "map_of fs (path (segments wal ! ?j)) = Some (File (seg_bytes (mss ! ?j)))"
    using wal_inv_file [OF inv j] .
  define lj where "lj = ?L ?j"
  define segs where "segs = ?segs"
  define cur where "cur = lj\<lparr>fhandle := Some \<lparr>h_path = path lj,
      h_pos = length (seg_bytes (mss ! ?j))\<rparr>\<rparr>"
  define ix where "ix = (if fileLength cur = 0 then lastIndex cur else lastIndex cur + 1)"
  define wl where "wl = \<lparr>wal_path = wal_path wal, current = Some (length segs - 1),
      segments = segs[length segs - 1 := cur], config = cfg, index = ix\<rparr>"
  have plj: "path lj = path (segments wal ! ?j)" by (simp add: lj_def)
  have op: "segment_open fs lj = (None, lj\<lparr>fhandle := Some \<lparr>h_path = path lj, h_pos = 0\<rparr>\<rparr>)"
    using fl by (simp add: segment_open_def OpenFile_def lj_def)
  have cnt: "contents fs (path lj) = seg_bytes (mss ! ?j)"
    using fl by (simp add: contents_def plj)
  have ls': "load_segments fs (sort ps) = Inr segs" using ls by (simp add: segs_def)
  have ne': "segs \<noteq> []" using ne by (simp add: segs_def)
  have lst': "last segs = lj" using lst by (simp add: segs_def lj_def)
  have lensegs: "length segs = ?n" by (simp add: segs_def)
  have ld: "Load json_Decode Glob fs (wal_path wal) = Inr wl"
    using wal_invD(5,6) [OF inv] dec g ls' ne'
    by (simp add: Load_def Lstat_def IsDir_def lst' op cnt Let_def file_stream_def set_pos_def
        Seek_End_def wl_def ix_def cur_def del: One_nat_def)
  have segs_nth: "segs ! i = ?L i" if "i < ?n" for i
    using that by (simp add: segs_def)
  have curf: "firstIndex cur = firstIndex (segments wal ! ?j)" "path cur = path (segments wal ! ?j)"
    "fileLength cur = of_nat (length (seg_bytes (mss ! ?j)))"
    "lastIndex cur = (if mss ! ?j = [] then firstIndex (segments wal ! ?j) else Index (last (mss ! ?j)))"
    by (simp_all add: cur_def lj_def)
  have lastwl: "last (segments wl) = cur"
    using n ne' by (simp add: wl_def last_conv_nth lensegs)
  have b: "length (seg_bytes (mss ! ?j)) < 2 ^ 64"
    using wal_inv_seg_bytes_le [OF inv j] .
  have z: "fileLength cur = 0 \<longleftrightarrow> mss ! ?j = []"
    using of_nat_eq_0_64 [OF b] by (simp add: curf)
  have tot: "length (concat (take ?j mss)) + length (mss ! ?j) = length ws"
    using wal_inv_total [OF inv] .
  have fi: "firstIndex (segments wal ! ?j) = of_nat (length (concat (take ?j mss)))"
    using wal_invD(8) [OF inv j] .
  have ix: "ix = index wal"
  proof (cases "mss ! ?j = []")
    case True
    then have "ix = firstIndex (segments wal ! ?j)"
      using z by (simp add: ix_def curf)
    then show ?thesis using fi tot True wal_invD(12) [OF inv] by simp
  next
    case False
    then have k: "length (mss ! ?j) - 1 < length (mss ! ?j)" by simp
    have "ix = Index (last (mss ! ?j)) + 1"
      using z False by (simp add: ix_def curf)
    also have "last (mss ! ?j) = mss ! ?j ! (length (mss ! ?j) - 1)"
      using False by (simp add: last_conv_nth)
    also have "Index \<dots> = of_nat (length (concat (take ?j mss)) + (length (mss ! ?j) - 1))"
      using wal_inv_nth(3) [OF inv j k] .
    also have "length (concat (take ?j mss)) + (length (mss ! ?j) - 1) = length ws - 1"
      using tot False by (cases "mss ! ?j") auto
    also have "(of_nat (length ws - 1) :: uint64) + 1 = of_nat (length ws)"
    proof -
      have "0 < length ws" using tot False by (cases "mss ! ?j") auto
      then have "length ws = Suc (length ws - 1)" by simp
      then have "(of_nat (length ws) :: uint64) = of_nat (Suc (length ws - 1))" by simp
      then show ?thesis by (simp only: of_nat_Suc add.commute)
    qed
    finally show ?thesis using wal_invD(12) [OF inv] by simp
  qed
  have m1: "map firstIndex (segments wl) = map firstIndex (segments wal)"
  proof -
    have "map firstIndex (segments wl) = map firstIndex ?segs"
      using j seg_invD(3) [OF wal_invD(7) [OF inv j]]
      by (simp add: wl_def lensegs map_update_same segs_nth curf segs_def [symmetric])
    also have "\<dots> = map firstIndex (segments wal)"
      using len by (intro nth_equalityI) simp_all
    finally show ?thesis .
  qed
  have m2: "map lastIndex (segments wl) = map lastIndex (segments wal)"
  proof -
    have "map lastIndex (segments wl) = map lastIndex ?segs"
      using j seg_invD(3) [OF wal_invD(7) [OF inv j]]
      by (simp add: wl_def lensegs map_update_same segs_nth curf segs_def [symmetric])
    also have "\<dots> = map lastIndex (segments wal)"
    proof (intro nth_equalityI)
      show "length (map lastIndex ?segs) = length (map lastIndex (segments wal))"
        using len by simp
      fix i assume "i < length (map lastIndex ?segs)"
      then have i: "i < ?n" by simp
      show "map lastIndex ?segs ! i = map lastIndex (segments wal) ! i"
        using i len seg_invD(3) [OF wal_invD(7) [OF inv i]] by simp
    qed
    finally show ?thesis .
  qed
  have m3: "map fileLength (segments wl) = map fileLength (segments wal)"
  proof -
    have "map fileLength (segments wl) = map fileLength ?segs"
      using j seg_invD(3) [OF wal_invD(7) [OF inv j]]
      by (simp add: wl_def lensegs map_update_same segs_nth curf segs_def [symmetric])
    also have "\<dots> = map fileLength (segments wal)"
    proof (intro nth_equalityI)
      show "length (map fileLength ?segs) = length (map fileLength (segments wal))"
        using len by simp
      fix i assume "i < length (map fileLength ?segs)"
      then have i: "i < ?n" by simp
      show "map fileLength ?segs ! i = map fileLength (segments wal) ! i"
        using i len seg_invD(6) [OF wal_invD(7) [OF inv i]] by simp
    qed
    finally show ?thesis .
  qed
  have m4: "map path (segments wl) = map path (segments wal)"
  proof -
    have "map path (segments wl) = map path ?segs"
      using j seg_invD(3) [OF wal_invD(7) [OF inv j]]
      by (simp add: wl_def lensegs map_update_same segs_nth curf segs_def [symmetric])
    also have "\<dots> = map path (segments wal)"
      using len by (intro nth_equalityI) simp_all
    finally show ?thesis .
  qed
  have i1: "index wl = index wal" using ix by (simp add: wl_def)
  have i2: "index wl = (if fileLength (last (segments wl)) = 0 then lastIndex (last (segments wl))
                 else lastIndex (last (segments wl)) + 1)"
    unfolding lastwl by (simp add: wl_def ix_def)
  have c: "config wl = cfg" "wal_path wl = wal_path wal" by (simp_all add: wl_def)
  show ?thesis
    using ld i1 i2 c m1 m2 m3 m4 by blast
qed

lemma example_fits2: "fits [(example_time 1, []), (example_time 3, [])]"
  by (simp add: fits_def)

lemma example_Close2:
  "Close example_wal2 example_fs2
     = (None, example_wal2_closed,
        [(''/d/00000000000000000001.wal'', contents example_fs2 ''/d/00000000000000000001.wal'')])"
  by code_simp

lemma example_Decode_config:
  "example_Decode (example_Encode (config example_wal0))
     = Some \<lparr>MaxSegmentSize = 1, MaxSegmentCount = 0, ExpirationTime = 0, ExpirationInterval = 0\<rparr>"
  by code_simp

lemma example_Glob2:
  "example_Glob example_fs2 (Join ''/d'' ''*'')
     = Inr [''/d/00000000000000000000.wal'', ''/d/config.json'', ''/d/00000000000000000001.wal'']"
  by code_simp

lemma example_listing2:
  "set [''/d/00000000000000000000.wal'', ''/d/config.json'', ''/d/00000000000000000001.wal'']
     = set (filter (\<lambda>q. dirname q = ''/d'' \<and> q \<noteq> ''/d'') (map fst example_fs2))"
  by code_simp

lemma example_Load2: "Load example_Decode example_Glob example_fs2 ''/d'' = Inr example_wal2"
  by code_simp

lemma example_star_New:
  "New example_Encode [] ''/dx'' [] = (Inr example_sibling_wal, example_sibling_fs)"
  "New example_Encode example_sibling_fs ''/d*'' [WithMaxSegmentSize 1]
     = (Inr example_star_wal0, example_star_fs0)"
  by code_simp+

lemma example_star_Write:
  "Write (example_time 1) example_star_wal0 example_star_fs0 []
     = (None, example_star_wal1, example_star_fs1, [])"
  by code_simp

lemma example_star_Close:
  "Close example_star_wal1 example_star_fs1
     = (None, example_star_closed,
        [(''/d*/00000000000000000000.wal'', contents example_star_fs1 ''/d*/00000000000000000000.wal'')])"
  by code_simp

lemma example_star_Glob:
  "example_Glob example_star_fs1 (Join ''/d*'' ''*'')
     = Inr [''/dx/00000000000000000000.wal'', ''/dx/config.json'',
            ''/d*/00000000000000000000.wal'', ''/d*/config.json'']"
  by code_simp

lemma example_star_Load:
  "Load example_Decode example_Glob example_star_fs1 ''/d*'' = Inr example_star_loaded"
  by code_simp


section \<open>The claims\<close>


text \<open>
  Claim C1, amended.  For every log created by \<open>New\<close> and every sequence of \<open>N\<close> appended
  payloads that fit the record format (each at most \<open>2^32 - 36\<close> bytes long, the records
  together shorter than \<open>2^64\<close> bytes), all the appends succeed and a Reader can be opened
  with no options.  When \<open>N \<ge> 1\<close>, it returns over \<open>N\<close> successive \<open>Next\<close> calls exactly \<open>N\<close>
  entries whose \<open>Data\<close> are the payloads in append order and whose \<open>Index\<close> fields are
  \<open>0 .. N-1\<close>, and the next \<open>Next\<close> fails with \<open>ErrNoSegmentsFound\<close>.  When \<open>N = 0\<close>, the
  first \<open>Next\<close> fails with \<open>EOF\<close>.
\<close>

theorem Reader_reads_all:
  assumes new: "New json_Encode fs0 dir options = (Inr w0, fs1)"
    and dir: "dir \<noteq> []"
    and opts: "\<forall>option \<in> set options. config_only option"
    and below: "\<forall>q \<in> fst ` set fs0. dirname q \<noteq> dir"
    and fit: "fits ws"
    and wr: "Writes ws w0 fs1 = (werr, wal, fs)"
  shows "werr = None \<and>
     (\<exists>r. Wal_Reader wal fs [] = Inr r \<and>
        (if ws = [] then fst (Next wal fs r) = Inl EOF
         else (\<exists>es r'. Nexts (length ws) wal fs r = (map Inr es, r') \<and>
                 map Data es = map snd ws \<and> map Index es = map of_nat [0..<length ws] \<and>
                 fst (Next wal fs r') = Inl ErrNoSegmentsFound)))"
proof (cases "ws = []")
  case True
  have e: "werr = None" "wal = w0" "fs = fs1"
    using wr True by simp_all
  have inv: "wal_inv json_Encode wal fs [[]] []"
    using New_inv [OF new dir opts below] e by simp
  show ?thesis
    using e(1) True Reader_empty [OF inv] by simp
next
  case ne: False
  from log_inv [OF new dir opts below fit wr] ne obtain mss
    where e: "werr = None" and inv: "wal_inv json_Encode wal fs mss ws"
      and nes: "\<forall>j < length mss. mss ! j \<noteq> []"
    by blast
  have "mss \<noteq> []" using wal_invD(1) [OF inv] .
  then have lst: "last mss \<noteq> []"
    using nes by (simp add: last_conv_nth)
  let ?es = "map stored (log_entries ws)"
  let ?r' = "reader_pos wal mss zeroTime (length mss - 1) (length (last mss))"
  have "Nexts (length ws) wal fs (reader_pos wal mss zeroTime 0 0)
      = (map (\<lambda>m. Inr (stored m)) (log_entries ws), ?r')"
    using Nexts_all [OF inv nes] .
  then have n: "Nexts (length ws) wal fs (reader_pos wal mss zeroTime 0 0) = (map Inr ?es, ?r')"
    by (simp add: comp_def)
  have d: "map Data ?es = map snd ws"
    using Data_log_entries [of ws] by (simp add: comp_def)
  have i: "map Index ?es = map of_nat [0..<length ws]"
    using map_Index_log_entries [of ws] by (simp add: comp_def)
  have "fst (Next wal fs ?r') = Inl ErrNoSegmentsFound"
    using Next_end [OF inv lst] by simp
  then have "\<exists>es r'. Nexts (length ws) wal fs (reader_pos wal mss zeroTime 0 0) = (map Inr es, r') \<and>
                 map Data es = map snd ws \<and> map Index es = map of_nat [0..<length ws] \<and>
                 fst (Next wal fs r') = Inl ErrNoSegmentsFound"
    using n d i by blast
  then show ?thesis
    using e ne Reader_plain [OF inv nes] by auto
qed

theorem Reader_reads_all_witness:
  "New example_Encode [] ''/d'' [WithMaxSegmentSize 1] = (Inr example_wal0, example_fs0) \<and>
   fits [(example_time 1, [])] \<and>
   Writes [(example_time 1, [])] example_wal0 example_fs0 = (None, example_wal1, example_fs1) \<and>
   (\<exists>r es r'. Wal_Reader example_wal1 example_fs1 [] = Inr r \<and>
      Nexts 1 example_wal1 example_fs1 r = (map Inr es, r') \<and>
      map Data es = [[]] \<and> map Index es = [0] \<and>
      fst (Next example_wal1 example_fs1 r') = Inl ErrNoSegmentsFound)"
proof -
  have h2: "''/d'' \<noteq> []" by simp
  have h3: "\<forall>option \<in> set [WithMaxSegmentSize 1]. config_only option" by simp
  have h4: "\<forall>q \<in> fst ` set ([] :: fs). dirname q \<noteq> ''/d''" by simp
  from Reader_reads_all [OF example_New h2 h3 h4 example_fits example_Writes]
  show ?thesis
    using example_New example_fits example_Writes by simp
qed

text \<open>
  The claim as stated fails for \<open>N = 0\<close>: on the log that \<open>New\<close> has just created, the first
  \<open>Next\<close> of a Reader opened with no options reads the empty segment file and fails with
  \<open>EOF\<close>, not with \<open>ErrNoSegmentsFound\<close>.
\<close>

theorem empty_log_counterexample:
  "New example_Encode [] ''/d'' [WithMaxSegmentSize 1] = (Inr example_wal0, example_fs0) \<and>
   Writes [] example_wal0 example_fs0 = (None, example_wal0, example_fs0) \<and>
   Wal_Reader example_wal0 example_fs0 [] = Inr example_reader0 \<and>
   Nexts 0 example_wal0 example_fs0 example_reader0 = ([], example_reader0) \<and>
   fst (Next example_wal0 example_fs0 example_reader0) = Inl EOF \<and>
   fst (Next example_wal0 example_fs0 example_reader0) \<noteq> Inl ErrNoSegmentsFound"
proof -
  have r: "Wal_Reader example_wal0 example_fs0 [] = Inr example_reader0"
    by code_simp
  have n: "fst (Next example_wal0 example_fs0 example_reader0) = Inl EOF"
    by code_simp
  show ?thesis
    using example_New r n by simp
qed

text \<open>
  Claim C2.  For every entry \<open>E\<close> whose timestamp is in UTC, whose \<open>Crc32\<close> is the CRC-32C of
  its data and whose \<open>Length\<close> is the length of its data, \<open>writeEntry\<close> writes exactly
  \<open>35 + Length\<close> bytes to the writer (here a buffer that already holds \<open>b\<close>), and
  \<open>readEntry\<close>, started where the record begins, returns \<open>E\<close> itself and stops right after
  the record.
\<close>

theorem entry_roundtrip:
  assumes "t_loc (Timestamp E) = UTC"
    and "Crc32 E = Checksum (Data E)"
    and "unat (Length E) = length (Data E)"
  shows "case writeEntry Buffer_Write b (Some E) of
           (err, buffer) \<Rightarrow>
             err = None \<and> length buffer = length b + (35 + unat (Length E)) \<and>
             readEntry \<lparr>s_buf = buffer, s_pos = length b\<rparr>
               = (Inr E, \<lparr>s_buf = buffer, s_pos = length buffer\<rparr>)"
proof -
  have w: "writeEntry Buffer_Write b (Some E) = (None, b @ entry_bytes E)"
    by (simp add: writeEntry_def Buffer_Write_def)
  have "readEntry \<lparr>s_buf = b @ entry_bytes E, s_pos = length b\<rparr>
      = (Inr (stored E), \<lparr>s_buf = b @ entry_bytes E, s_pos = length b\<rparr>\<lparr>s_pos := length b + length (entry_bytes E)\<rparr>)"
    by (rule readEntry_at [where post = "[]"]) (simp_all add: assms)
  then show ?thesis
    using assms by (simp add: w stored_id)
qed

theorem entry_roundtrip_witness:
  "t_loc (Timestamp (newMessage 3 [1, 2] zeroTime)) = UTC \<and>
   Crc32 (newMessage 3 [1, 2] zeroTime) = Checksum (Data (newMessage 3 [1, 2] zeroTime)) \<and>
   unat (Length (newMessage 3 [1, 2] zeroTime)) = length (Data (newMessage 3 [1, 2] zeroTime)) \<and>
   (case writeEntry Buffer_Write [] (Some (newMessage 3 [1, 2] zeroTime)) of
      (err, buffer) \<Rightarrow>
         err = None \<and> length buffer = length ([] :: byte list) + (35 + unat (Length (newMessage 3 [1, 2] zeroTime))) \<and>
         readEntry \<lparr>s_buf = buffer, s_pos = length ([] :: byte list)\<rparr>
           = (Inr (newMessage 3 [1, 2] zeroTime), \<lparr>s_buf = buffer, s_pos = length buffer\<rparr>))"
proof -
  have h1: "t_loc (Timestamp (newMessage 3 [1, 2] zeroTime)) = UTC"
    by (simp add: newMessage_def zeroTime_def)
  have h2: "Crc32 (newMessage 3 [1, 2] zeroTime) = Checksum (Data (newMessage 3 [1, 2] zeroTime))"
    by (simp add: newMessage_def)
  have h3: "unat (Length (newMessage 3 [1, 2] zeroTime)) = length (Data (newMessage 3 [1, 2] zeroTime))"
    by (simp add: newMessage_def)
  from entry_roundtrip [OF h1 h2 h3, of "[]"] h1 h2 h3 show ?thesis
    by blast
qed


text \<open>
  Claim C3.  On a log whose active segment is open and whose directory exists (the path of
  the next segment not being a directory), \<open>Write\<close> succeeds and advances the next index;
  it cycles exactly when \<open>MaxSegmentSize\<close> is not 0 and the active segment's \<open>fileLength\<close> has
  reached it.  Then \<open>cycle\<close> flushes the old active segment (its file, as it is then, is
  committed to stable storage, and nothing else is) and closes it; the segment stays in the
  list; \<open>cycle\<close> appends a segment with \<open>firstIndex = lastIndex =\<close> the next index and \<open>fileLength = 0\<close>,
  which becomes the active one; the new entry is written to it, so that in the end its file
  holds exactly that record.  Otherwise no segment is added, flushed or closed and the
  others are untouched.
\<close>

theorem Write_cycles:
  assumes cur: "current wal = Some c" and c: "c < length (segments wal)"
    and opn: "fhandle (segments wal ! c) = Some h"
    and dir: "wal_path wal \<noteq> []" "map_of fs (wal_path wal) = Some Directory"
    and free: "map_of fs (Join (wal_path wal) (Sprintf_020d_wal (index wal))) \<noteq> Some Directory"
  shows "case Write now wal fs message of
     (err, wal', fs', tr) \<Rightarrow>
       err = None \<and> index wal' = index wal + 1 \<and>
       (if MaxSegmentSize (config wal) \<noteq> 0
           \<and> MaxSegmentSize (config wal) \<le> fileLength (segments wal ! c)
        then cycle wal fs =
               (None,
                wal\<lparr>current := Some (length (segments wal)),
                     segments := (segments wal)[c := (segments wal ! c)\<lparr>fhandle := None\<rparr>]
                       @ [\<lparr>firstIndex = index wal, lastIndex = index wal,
                            firstTimestamp = zeroTime, lastTimestamp = zeroTime,
                            path = Join (wal_path wal) (Sprintf_020d_wal (index wal)),
                            fhandle = Some \<lparr>h_path = Join (wal_path wal) (Sprintf_020d_wal (index wal)),
                                            h_pos = 0\<rparr>,
                            fileLength = 0\<rparr>]\<rparr>,
                AList.update (Join (wal_path wal) (Sprintf_020d_wal (index wal))) (File []) fs,
                [(h_path h, contents fs (h_path h))])
           \<and> tr = [(h_path h, contents fs (h_path h))]
           \<and> current wal' = Some (length (segments wal))
           \<and> segments wal' =
               (segments wal)[c := (segments wal ! c)\<lparr>fhandle := None\<rparr>]
                 @ [\<lparr>firstIndex = index wal, lastIndex = index wal,
                      firstTimestamp = now, lastTimestamp = now,
                      path = Join (wal_path wal) (Sprintf_020d_wal (index wal)),
                      fhandle = Some \<lparr>h_path = Join (wal_path wal) (Sprintf_020d_wal (index wal)),
                                      h_pos = 35 + length message\<rparr>,
                      fileLength = 35 + of_nat (length message)\<rparr>]
           \<and> contents fs' (Join (wal_path wal) (Sprintf_020d_wal (index wal)))
               = snd (writeEntry Buffer_Write [] (Some (newMessage (index wal) message now)))
        else tr = [] \<and> current wal' = Some c \<and> length (segments wal') = length (segments wal)
           \<and> fhandle (segments wal' ! c) \<noteq> None
           \<and> (\<forall>j < length (segments wal). j \<noteq> c \<longrightarrow> segments wal' ! j = segments wal ! j))"
proof -
  define s where "s = segments wal ! c"
  define e where "e = newMessage (index wal) message now"
  define P where "P = Join (wal_path wal) (Sprintf_020d_wal (index wal))"
  let ?full = "MaxSegmentSize (config wal) \<noteq> 0 \<and> MaxSegmentSize (config wal) \<le> fileLength s"
  show ?thesis
  proof (cases ?full)
    case True
    define segs1 where "segs1 = (segments wal)[c := s\<lparr>fhandle := None\<rparr>]"
    define seg where "seg = \<lparr>firstIndex = index wal, lastIndex = index wal, firstTimestamp = zeroTime,
        lastTimestamp = zeroTime, path = P, fhandle = Some \<lparr>h_path = P, h_pos = 0\<rparr>, fileLength = 0\<rparr>"
    define wal1 where "wal1 = wal\<lparr>segments := segs1\<rparr>"
    define fs1 where "fs1 = AList.update P (File []) fs"
    define wal2 where "wal2 = wal1\<lparr>current := Some (length (segments wal1)), segments := segments wal1 @ [seg]\<rparr>"
    have cl: "Close wal fs = (None, wal1, [(h_path h, contents fs (h_path h))])"
      by (simp add: Close_def cur s_def [symmetric] segment_flush_def segment_close_def opn [folded s_def]
          wal1_def segs1_def)
    have dP: "dirname P = wal_path wal"
      using dir(1) by (simp add: P_def)
    have cr: "Create fs P = (Inr \<lparr>h_path = P, h_pos = 0\<rparr>, fs1)"
      unfolding fs1_def using free dir(2) by (intro Create_not_dir) (simp_all add: P_def [symmetric] dP)
    have cs: "createSegment fs (wal_path wal1) (index wal1) = (Inr seg, fs1)"
      by (simp add: createSegment_def wal1_def P_def [symmetric] cr seg_def)
    have cy: "cycle wal fs = (None, wal2, fs1, [(h_path h, contents fs (h_path h))])"
      by (simp add: cycle_def cl cs wal2_def)
    have len1: "length segs1 = length (segments wal)"
      by (simp add: segs1_def)
    define fs2 where "fs2 = AList.update P (File (entry_bytes e)) fs1"
    define seg' where "seg' = seg\<lparr>fhandle := Some \<lparr>h_path = P, h_pos = length (entry_bytes e)\<rparr>,
        lastIndex := Index e, lastTimestamp := Timestamp e, firstTimestamp := Timestamp e,
        fileLength := size_of e\<rparr>"
    have sw: "segment_write fs1 seg e = (None, seg', fs2)"
      by (simp add: segment_write_def writeEntry_def File_Write_def seg_def fs1_def contents_def
          write_at_def seg'_def fs2_def)
    define wal3 where "wal3 = wal2\<lparr>segments := (segments wal2)[length segs1 := seg'], index := index wal2 + 1\<rparr>"
    have ac: "append_current now wal2 fs1 message = (None, wal3, fs2)"
      by (simp add: append_current_def wal2_def wal1_def e_def [symmetric] sw wal3_def)
    have W: "Write now wal fs message = (None, wal3, fs2, [(h_path h, contents fs (h_path h))])"
      using True by (simp add: Write_unfold cur s_def [symmetric] cy ac)
    have segs3: "segments wal3 = segs1 @ [seg']"
      by (simp add: wal3_def wal2_def wal1_def)
    have cont: "contents fs2 P = snd (writeEntry Buffer_Write [] (Some e))"
      by (simp add: fs2_def contents_def writeEntry_def Buffer_Write_def)
    have seg'': "seg' = \<lparr>firstIndex = index wal, lastIndex = index wal, firstTimestamp = now, lastTimestamp = now,
        path = P, fhandle = Some \<lparr>h_path = P, h_pos = 35 + length message\<rparr>,
        fileLength = 35 + of_nat (length message)\<rparr>"
      by (simp add: seg'_def seg_def e_def newMessage_def size_of_def ConstEntrySize_def)
    have i3: "index wal3 = index wal + 1" and c3: "current wal3 = Some (length (segments wal))"
      by (simp_all add: wal3_def wal2_def wal1_def len1)
    have w2: "wal2 = wal\<lparr>current := Some (length (segments wal)), segments := segs1 @ [seg]\<rparr>"
      by (simp add: wal2_def wal1_def len1)
    have full: "MaxSegmentSize (config wal) \<noteq> 0
           \<and> MaxSegmentSize (config wal) \<le> fileLength (segments wal ! c)"
      using True by (simp add: s_def)
    show ?thesis
      unfolding W prod.case P_def [symmetric] e_def [symmetric] s_def [symmetric]
        segs1_def [symmetric] seg_def [symmetric] seg'' [symmetric] fs1_def [symmetric]
      using True cy i3 c3 segs3 cont w2 by simp
  next
    case False
    obtain err s' fs' where sw: "segment_write fs s e = (err, s', fs')"
      by (cases "segment_write fs s e") auto
    have err: "err = None" and h': "fhandle s' \<noteq> None"
      using sw opn [folded s_def]
      by (auto simp: segment_write_def writeEntry_def File_Write_def split: prod.splits option.splits)
    define wal' where "wal' = wal\<lparr>segments := (segments wal)[c := s'], index := index wal + 1\<rparr>"
    have ac: "append_current now wal fs message = (None, wal', fs')"
      by (simp add: append_current_def cur s_def [symmetric] e_def [symmetric] sw err wal'_def)
    have ifeq: "(if MaxSegmentSize (config wal) \<noteq> 0
                    \<and> fileLength (segments wal ! c) \<ge> MaxSegmentSize (config wal)
                 then cycle wal fs else (None, wal, fs, [])) = (None, wal, fs, [])"
      using False unfolding s_def by (auto simp: not_le)
    have W: "Write now wal fs message = (None, wal', fs', [])"
      by (simp only: Write_unfold cur option.case ifeq prod.case ac)
    show ?thesis
      using False c h' unfolding s_def by (auto simp: W wal'_def cur)
  qed
qed

theorem Write_cycles_witness:
  "current example_wal1 = Some 0 \<and> 0 < length (segments example_wal1) \<and>
   fhandle (segments example_wal1 ! 0)
     = Some \<lparr>h_path = ''/d/00000000000000000000.wal'', h_pos = 35\<rparr> \<and>
   wal_path example_wal1 \<noteq> [] \<and> map_of example_fs1 (wal_path example_wal1) = Some Directory \<and>
   map_of example_fs1 (Join (wal_path example_wal1) (Sprintf_020d_wal (index example_wal1)))
     \<noteq> Some Directory \<and>
   MaxSegmentSize (config example_wal1) \<noteq> 0 \<and>
   MaxSegmentSize (config example_wal1) \<le> fileLength (segments example_wal1 ! 0) \<and>
   (case Write (example_time 2) example_wal1 example_fs1 [] of
      (err, wal', fs', tr) \<Rightarrow>
        err = None \<and> index wal' = index example_wal1 + 1 \<and>
        tr = [(''/d/00000000000000000000.wal'',
               contents example_fs1 ''/d/00000000000000000000.wal'')] \<and>
        current wal' = Some (length (segments example_wal1)) \<and>
        length (segments wal') = length (segments example_wal1) + 1)"
proof -
  have h1: "current example_wal1 = Some 0" by (simp add: example_wal1_def)
  have h2: "0 < length (segments example_wal1)" by (simp add: example_wal1_def)
  have h3: "fhandle (segments example_wal1 ! 0)
     = Some \<lparr>h_path = ''/d/00000000000000000000.wal'', h_pos = 35\<rparr>"
    by (simp add: example_wal1_def)
  have h4: "wal_path example_wal1 \<noteq> []" by (simp add: example_wal1_def)
  have h5: "map_of example_fs1 (wal_path example_wal1) = Some Directory"
    by (simp add: example_wal1_def example_fs1_def)
  have h6: "map_of example_fs1 (Join (wal_path example_wal1) (Sprintf_020d_wal (index example_wal1)))
     \<noteq> Some Directory"
    by code_simp
  have full: "MaxSegmentSize (config example_wal1) \<noteq> 0 \<and>
     MaxSegmentSize (config example_wal1) \<le> fileLength (segments example_wal1 ! 0)"
    by (simp add: example_wal1_def)
  from Write_cycles [OF h1 h2 h3 h4 h5 h6, of "example_time 2" "[]"] full
  have "case Write (example_time 2) example_wal1 example_fs1 [] of
      (err, wal', fs', tr) \<Rightarrow>
        err = None \<and> index wal' = index example_wal1 + 1 \<and>
        tr = [(''/d/00000000000000000000.wal'',
               contents example_fs1 ''/d/00000000000000000000.wal'')] \<and>
        current wal' = Some (length (segments example_wal1)) \<and>
        length (segments wal') = length (segments example_wal1) + 1"
    by (auto split: prod.splits)
  then show ?thesis
    using h1 h2 h3 h4 h5 h6 full by blast
qed


text \<open>
  \<open>WithIndex\<close> on the logs that \<open>New\<close> and \<open>Write\<close> build.  On a log made by \<open>New\<close> and at least one append (payloads that fit the record
  format), whose entries have the indices \<open>first .. last\<close> with \<open>first\<close> the first index of
  the first segment (always 0) and \<open>last\<close> the last index of the last segment, a Reader
  opened with \<open>WithIndex i\<close> is positioned so that the first \<open>Next\<close> returns the entry with
  index \<open>first\<close> when \<open>i \<le> first\<close>, the entry with index \<open>i\<close> when \<open>first \<le> i \<le> last\<close>, and
  the final entry, with index \<open>last\<close>, when \<open>i > last\<close>; its \<open>Data\<close> is the payload appended
  under that index.
\<close>

theorem Reader_WithIndex:
  assumes new: "New json_Encode fs0 dir options = (Inr w0, fs1)"
    and dir: "dir \<noteq> []"
    and opts: "\<forall>option \<in> set options. config_only option"
    and below: "\<forall>q \<in> fst ` set fs0. dirname q \<noteq> dir"
    and fit: "fits ws"
    and ne: "ws \<noteq> []"
    and wr: "Writes ws w0 fs1 = (werr, wal, fs)"
  shows "werr = None \<and>
     (\<exists>r e r'. Wal_Reader wal fs [WithIndex i] = Inr r \<and> Next wal fs r = (Inr e, r') \<and>
        Index e = (if i \<le> firstIndex (hd (segments wal)) then firstIndex (hd (segments wal))
                   else if i \<le> lastIndex (last (segments wal)) then i
                   else lastIndex (last (segments wal))) \<and>
        unat (Index e) < length ws \<and> Data e = snd (ws ! unat (Index e))) \<and>
     firstIndex (hd (segments wal)) = 0 \<and>
     unat (lastIndex (last (segments wal))) = length ws - 1"
proof -
  from log_inv [OF new dir opts below fit wr] ne obtain mss
    where e: "werr = None" and inv: "wal_inv json_Encode wal fs mss ws"
      and nes: "\<forall>j < length mss. mss ! j \<noteq> []"
    by blast
  let ?g = "min (unat i) (length ws - 1)"
  from Reader_WithIndex_pos [OF inv nes, of i] obtain j k
    where jk: "j < length mss" "k < length (mss ! j)"
      "length (concat (take j mss)) + k = ?g"
      and rd: "Wal_Reader wal fs [WithIndex i] = Inr (reader_pos wal mss zeroTime j k)"
    by blast
  let ?e = "stored (mss ! j ! k)"
  have nx: "Next wal fs (reader_pos wal mss zeroTime j k)
      = (Inr ?e, reader_pos wal mss zeroTime j (Suc k))"
    using Next_in [OF inv jk(1,2)] .
  have g: "?g < length ws" using ne by (cases ws) simp_all
  have g64: "?g < 2 ^ 64" using g wal_inv_count(2) [OF inv] by simp
  have m: "mss ! j ! k = log_entries ws ! ?g"
    using wal_inv_nth(1) [OF inv jk(1,2)] jk(3) by simp
  have ix: "Index ?e = of_nat ?g"
    using m g by (simp add: Index_log_entries)
  have ux: "unat (Index ?e) = ?g"
    unfolding ix using g64 by (simp only: unat_of_nat) simp
  have dt: "Data ?e = snd (ws ! unat (Index ?e))"
    unfolding ux using m g by (simp add: log_entries_nth newMessage_def)
  have f0: "firstIndex (hd (segments wal)) = 0"
    and ul: "unat (lastIndex (last (segments wal))) = length ws - 1"
    using first_last_index [OF inv nes] by simp_all
  have lw: "lastIndex (last (segments wal)) = of_nat (length ws - 1)"
    using arg_cong [OF ul, of "of_nat :: nat \<Rightarrow> uint64"] by simp
  have iw: "of_nat (unat i) = i" by simp
  have cases: "Index ?e = (if i \<le> firstIndex (hd (segments wal)) then firstIndex (hd (segments wal))
                   else if i \<le> lastIndex (last (segments wal)) then i
                   else lastIndex (last (segments wal)))"
  proof (cases "unat i \<le> length ws - 1")
    case True
    then have "?g = unat i" by simp
    then have "Index ?e = i" using ix iw by simp
    moreover have "i \<le> lastIndex (last (segments wal))"
      using True ul by (simp add: word_le_nat_alt)
    ultimately show ?thesis using f0 by auto
  next
    case False
    then have "?g = length ws - 1" by simp
    then have "Index ?e = lastIndex (last (segments wal))"
      using ix lw by simp
    moreover have "\<not> i \<le> lastIndex (last (segments wal))"
      using False ul by (simp add: word_le_nat_alt)
    moreover have "\<not> i \<le> firstIndex (hd (segments wal))"
      using False f0 by (auto simp: word_le_nat_alt)
    ultimately show ?thesis by simp
  qed
  show ?thesis
    using e rd nx cases ux g dt f0 ul by (metis (no_types, lifting))
qed

theorem Reader_WithIndex_witness:
  "New example_Encode [] ''/d'' [WithMaxSegmentSize 1] = (Inr example_wal0, example_fs0) \<and>
   fits [(example_time 1, [])] \<and>
   Writes [(example_time 1, [])] example_wal0 example_fs0 = (None, example_wal1, example_fs1) \<and>
   (\<exists>r e r'. Wal_Reader example_wal1 example_fs1 [WithIndex 5] = Inr r \<and>
      Next example_wal1 example_fs1 r = (Inr e, r') \<and> Index e = 0 \<and> Data e = [])"
proof -
  have h2: "''/d'' \<noteq> []" by simp
  have h3: "\<forall>option \<in> set [WithMaxSegmentSize 1]. config_only option" by simp
  have h4: "\<forall>q \<in> fst ` set ([] :: fs). dirname q \<noteq> ''/d''" by simp
  have h6: "[(example_time 1, [])] \<noteq> ([] :: (Time \<times> byte list) list)" by simp
  have l: "lastIndex (last (segments example_wal1)) = 0"
    "firstIndex (hd (segments example_wal1)) = 0"
    by (simp_all add: example_wal1_def)
  from Reader_WithIndex [OF example_New h2 h3 h4 example_fits h6 example_Writes, of 5]
  obtain r e r' where "Wal_Reader example_wal1 example_fs1 [WithIndex 5] = Inr r"
    "Next example_wal1 example_fs1 r = (Inr e, r')" "Index e = 0"
    "Data e = snd ([(example_time 1, [])] ! unat (Index e))"
    unfolding l by auto
  then have "\<exists>r e r'. Wal_Reader example_wal1 example_fs1 [WithIndex 5] = Inr r \<and>
      Next example_wal1 example_fs1 r = (Inr e, r') \<and> Index e = 0 \<and> Data e = []"
    by auto
  then show ?thesis
    using example_New example_fits example_Writes by simp
qed

text \<open>
  Claim C4, at an input where the code departs from it.  The directory is the one that
  \<open>cycle\<close> leaves inside \<open>Write\<close> after the new segment file is created and before the entry is
  written to it; \<open>Load\<close> of it gives a log that holds the one entry with index 0 and whose
  active segment is empty.  \<open>WithIndex 9\<close> is beyond the last index: the documentation of
  \<open>WithIndex\<close> and the claim have the reader set to the latest index, so that the first
  \<open>Next\<close> returns the entry 0.  The code finds no segment for 9, takes the last segment, the
  empty one, scans it without reading anything and sets the reader's index to that
  segment's first index, 1; the first \<open>Next\<close> fails with \<open>EOF\<close>.
\<close>

theorem WithIndex_empty_active_segment:
  "New example_Encode [] ''/d'' [WithMaxSegmentSize 1] = (Inr example_wal0, example_fs0) \<and>
   Write (example_time 1) example_wal0 example_fs0 [] = (None, example_wal1, example_fs1, []) \<and>
   cycle example_wal1 example_fs1
     = (None, example_wal_cycled, example_fs_cycled,
        [(''/d/00000000000000000000.wal'', contents example_fs1 ''/d/00000000000000000000.wal'')]) \<and>
   Load example_Decode example_Glob example_fs_cycled ''/d'' = Inr example_wal_cycled \<and>
   Wal_Reader example_wal_cycled example_fs_cycled [WithIndex 9] = Inr example_reader_cycled \<and>
   r_index example_reader_cycled = 1 \<and>
   Next example_wal_cycled example_fs_cycled example_reader_cycled
     = (Inl EOF, example_reader_cycled)"
proof -
  have r: "Wal_Reader example_wal_cycled example_fs_cycled [WithIndex 9] = Inr example_reader_cycled"
    by code_simp
  have n: "Next example_wal_cycled example_fs_cycled example_reader_cycled
     = (Inl EOF, example_reader_cycled)"
    by code_simp
  have i: "r_index example_reader_cycled = 1"
    by (simp add: example_reader_cycled_def)
  show ?thesis
    using example_New example_Write example_cycle example_Load_cycled r i n by simp
qed


text \<open>
  \<open>Load\<close> after \<open>Close\<close>, on the directories where \<open>filepath.Glob\<close> lists the directory.  For
  every log created by \<open>New\<close> in a fresh directory, every sequence of appended payloads that
  fit the record format, and \<open>Close\<close>: when \<open>config.json\<close> decodes and \<open>filepath.Glob\<close> returns for
  the pattern \<open>dir/*\<close> exactly the entries of the directory, each once, the appends and
  \<open>Close\<close> succeed and \<open>Load\<close> returns a log whose next index is that of the in-memory log,
  is the active segment's last index plus one when that segment is non-empty and its last
  index when it is empty, and whose segments have the first index, last index, file length
  and path of the in-memory log's segments, in the same order.
\<close>

theorem Load_after_Close:
  assumes new: "New json_Encode fs0 dir options = (Inr w0, fs1)"
    and dir: "dir \<noteq> []"
    and opts: "\<forall>option \<in> set options. config_only option"
    and below: "\<forall>q \<in> fst ` set fs0. dirname q \<noteq> dir"
    and fit: "fits ws"
    and wr: "Writes ws w0 fs1 = (werr, wal, fs)"
    and cl: "Close wal fs = (cerr, wal', tr)"
    and dec: "json_Decode (json_Encode (config w0)) = Some cfg"
    and g: "Glob fs (Join dir ''*'') = Inr ps"
    and d: "distinct ps"
    and s: "set ps = set (filter (\<lambda>q. dirname q = dir \<and> q \<noteq> dir) (map fst fs))"
  shows "werr = None \<and> cerr = None \<and>
     (\<exists>wl. Load json_Decode Glob fs dir = Inr wl \<and>
        index wl = index wal' \<and> index wl = of_nat (length ws) \<and>
        index wl = (if fileLength (last (segments wl)) = 0 then lastIndex (last (segments wl))
                    else lastIndex (last (segments wl)) + 1) \<and>
        map firstIndex (segments wl) = map firstIndex (segments wal') \<and>
        map lastIndex (segments wl) = map lastIndex (segments wal') \<and>
        map fileLength (segments wl) = map fileLength (segments wal') \<and>
        map path (segments wl) = map path (segments wal') \<and>
        config wl = cfg \<and> wal_path wl = dir)"
proof -
  from log_inv [OF new dir opts below fit wr] obtain mss
    where e: "werr = None" and inv: "wal_inv json_Encode wal fs mss ws"
      and p: "wal_path wal = dir" and c: "config wal = config w0"
    by blast
  let ?j = "length mss - 1"
  have cl': "cerr = None"
    "wal' = wal\<lparr>segments := (segments wal)[?j := (segments wal ! ?j)\<lparr>fhandle := None\<rparr>]\<rparr>"
    using cl Close_inv [OF inv] by simp_all
  have i: "index wal' = index wal" by (simp add: cl'(2))
  have m: "map firstIndex (segments wal') = map firstIndex (segments wal)"
    "map lastIndex (segments wal') = map lastIndex (segments wal)"
    "map fileLength (segments wal') = map fileLength (segments wal)"
    "map path (segments wal') = map path (segments wal)"
    by (simp_all add: cl'(2) map_update_same)
  have dec': "json_Decode (json_Encode (config wal)) = Some cfg" using dec c by simp
  have g': "Glob fs (Join (wal_path wal) ''*'') = Inr ps" using g p by simp
  have s': "set ps = set (filter (\<lambda>q. dirname q = wal_path wal \<and> q \<noteq> wal_path wal) (map fst fs))"
    using s p by simp
  from Load_inv [where json_Decode = json_Decode and Glob = Glob, OF inv dec' g' d s'] obtain wl
    where L: "Load json_Decode Glob fs (wal_path wal) = Inr wl"
      "index wl = index wal" "config wl = cfg" "wal_path wl = wal_path wal"
      "index wl = (if fileLength (last (segments wl)) = 0 then lastIndex (last (segments wl))
                 else lastIndex (last (segments wl)) + 1)"
      "map firstIndex (segments wl) = map firstIndex (segments wal)"
      "map lastIndex (segments wl) = map lastIndex (segments wal)"
      "map fileLength (segments wl) = map fileLength (segments wal)"
      "map path (segments wl) = map path (segments wal)"
    by blast
  have n: "index wl = of_nat (length ws)" using L(2) wal_invD(12) [OF inv] by simp
  show ?thesis
    using e cl'(1) L i m n p by (intro conjI exI [of _ wl]) simp_all
qed

theorem Load_after_Close_witness:
  "New example_Encode [] ''/d'' [WithMaxSegmentSize 1] = (Inr example_wal0, example_fs0) \<and>
   fits [(example_time 1, []), (example_time 3, [])] \<and>
   Writes [(example_time 1, []), (example_time 3, [])] example_wal0 example_fs0
     = (None, example_wal2, example_fs2) \<and>
   Close example_wal2 example_fs2
     = (None, example_wal2_closed,
        [(''/d/00000000000000000001.wal'', contents example_fs2 ''/d/00000000000000000001.wal'')]) \<and>
   example_Decode (example_Encode (config example_wal0))
     = Some \<lparr>MaxSegmentSize = 1, MaxSegmentCount = 0, ExpirationTime = 0, ExpirationInterval = 0\<rparr> \<and>
   example_Glob example_fs2 (Join ''/d'' ''*'')
     = Inr [''/d/00000000000000000000.wal'', ''/d/config.json'', ''/d/00000000000000000001.wal''] \<and>
   (\<exists>wl. Load example_Decode example_Glob example_fs2 ''/d'' = Inr wl \<and>
      index wl = 2 \<and> index wl = lastIndex (last (segments wl)) + 1 \<and>
      map firstIndex (segments wl) = [0, 1] \<and> map lastIndex (segments wl) = [0, 1] \<and>
      map fileLength (segments wl) = [35, 35])"
proof -
  have h2: "''/d'' \<noteq> []" by simp
  have h3: "\<forall>option \<in> set [WithMaxSegmentSize 1]. config_only option" by simp
  have h4: "\<forall>q \<in> fst ` set ([] :: fs). dirname q \<noteq> ''/d''" by simp
  have h5: "distinct [''/d/00000000000000000000.wal'', ''/d/config.json'', ''/d/00000000000000000001.wal'']"
    by simp
  from Load_after_Close [where json_Decode = example_Decode and Glob = example_Glob,
      OF example_New h2 h3 h4 example_fits2 example_Writes2 example_Close2 example_Decode_config
        example_Glob2 h5 example_listing2]
  obtain wl where L: "Load example_Decode example_Glob example_fs2 ''/d'' = Inr wl"
      "index wl = index example_wal2_closed"
      "index wl = (if fileLength (last (segments wl)) = 0 then lastIndex (last (segments wl))
                    else lastIndex (last (segments wl)) + 1)"
      "map firstIndex (segments wl) = map firstIndex (segments example_wal2_closed)"
      "map lastIndex (segments wl) = map lastIndex (segments example_wal2_closed)"
      "map fileLength (segments wl) = map fileLength (segments example_wal2_closed)"
    by blast
  have "segments wl \<noteq> []" using L(4) by (auto simp: example_wal2_closed_def)
  then have "fileLength (last (segments wl)) = last (map fileLength (segments wl))"
    by (simp add: last_map)
  then have f: "fileLength (last (segments wl)) = 35"
    using L(6) by (simp add: example_wal2_closed_def)
  have "\<exists>wl. Load example_Decode example_Glob example_fs2 ''/d'' = Inr wl \<and>
      index wl = 2 \<and> index wl = lastIndex (last (segments wl)) + 1 \<and>
      map firstIndex (segments wl) = [0, 1] \<and> map lastIndex (segments wl) = [0, 1] \<and>
      map fileLength (segments wl) = [35, 35]"
    using L f by (intro exI [of _ wl]) (simp add: example_wal2_closed_def)
  then show ?thesis
    using example_New example_fits2 example_Writes2 example_Close2 example_Decode_config
      example_Glob2 by simp
qed

text \<open>
  Claim C6, at an input where the code departs from it.  \<open>Load\<close> takes the directory path
  literally for \<open>Lstat\<close> and for \<open>config.json\<close>, but hands it to \<open>filepath.Glob\<close>, where a \<open>*\<close> is
  pattern syntax.  Here a log is created by \<open>New\<close> in the fresh directory \<open>/d*\<close>, next to
  another log, \<open>/dx\<close>; one entry is appended and the log is closed.  In memory the log has one
  segment, of 35 bytes, and its next index is 1.  The pattern \<open>/d*/*\<close> also matches the files
  of \<open>/dx\<close>, which sort after those of \<open>/d*\<close>: \<open>Load\<close> of \<open>/d*\<close> returns a log with two segments,
  whose active segment is the empty segment file of \<open>/dx\<close> and whose next index is 0.
\<close>

theorem Load_after_Close_pattern_directory:
  "New example_Encode [] ''/dx'' [] = (Inr example_sibling_wal, example_sibling_fs) \<and>
   New example_Encode example_sibling_fs ''/d*'' [WithMaxSegmentSize 1]
     = (Inr example_star_wal0, example_star_fs0) \<and>
   Writes [(example_time 1, [])] example_star_wal0 example_star_fs0
     = (None, example_star_wal1, example_star_fs1) \<and>
   Close example_star_wal1 example_star_fs1
     = (None, example_star_closed,
        [(''/d*/00000000000000000000.wal'', contents example_star_fs1 ''/d*/00000000000000000000.wal'')]) \<and>
   example_Glob example_star_fs1 (Join ''/d*'' ''*'')
     = Inr [''/dx/00000000000000000000.wal'', ''/dx/config.json'',
            ''/d*/00000000000000000000.wal'', ''/d*/config.json''] \<and>
   Load example_Decode example_Glob example_star_fs1 ''/d*'' = Inr example_star_loaded \<and>
   index example_star_closed = 1 \<and> index example_star_loaded = 0 \<and>
   map fileLength (segments example_star_closed) = [35] \<and>
   map fileLength (segments example_star_loaded) = [35, 0] \<and>
   map path (segments example_star_loaded)
     = [''/d*/00000000000000000000.wal'', ''/dx/00000000000000000000.wal'']"
proof -
  have w: "Writes [(example_time 1, [])] example_star_wal0 example_star_fs0
     = (None, example_star_wal1, example_star_fs1)"
    using example_star_Write by simp
  have c: "index example_star_closed = 1" "map fileLength (segments example_star_closed) = [35]"
    by (simp_all add: example_star_closed_def)
  have l: "index example_star_loaded = 0" "map fileLength (segments example_star_loaded) = [35, 0]"
    "map path (segments example_star_loaded)
       = [''/d*/00000000000000000000.wal'', ''/dx/00000000000000000000.wal'']"
    by (simp_all add: example_star_loaded_def)
  show ?thesis
    using example_star_New w example_star_Close example_star_Glob example_star_Load c l by simp
qed

text \<open>
  Claim C7, at an input where the code departs from it.  An entry with a payload of
  \<open>2^32 - 35\<close> bytes is written; the stream is positioned right after it, at offset
  \<open>2^32\<close>.  \<open>gotoPreviousEntry\<close> reads the trailer length \<open>L = 2^32 - 35\<close>, adds the constant
  in 32 bits, where \<open>L + 35\<close> wraps around to 0, and seeks backward by nothing: the offset
  stays at the end of the entry instead of moving to its start.
\<close>

theorem gotoPreviousEntry_overflow:
  "gotoPreviousEntry
     \<lparr>s_buf = snd (writeEntry Buffer_Write [] (Some (newMessage 0 (replicate 4294967261 0) zeroTime))),
      s_pos = 4294967296\<rparr>
   = (None,
      \<lparr>s_buf = snd (writeEntry Buffer_Write [] (Some (newMessage 0 (replicate 4294967261 0) zeroTime))),
       s_pos = 4294967296\<rparr>)"
proof -
  let ?m = "newMessage 0 (replicate 4294967261 0) zeroTime"
  let ?r = "\<lparr>s_buf = entry_bytes ?m, s_pos = 4294967296\<rparr>"
  have w: "snd (writeEntry Buffer_Write [] (Some ?m)) = entry_bytes ?m"
    by (simp add: writeEntry_def Buffer_Write_def)
  have l: "unat (Length ?m) = length (Data ?m)"
    by (simp add: newMessage_def)
  have z: "Length ?m + 35 = 0"
    by (simp add: newMessage_def)
  have "gotoPreviousEntry ?r = (None, ?r\<lparr>s_pos := nat (int (length ([] :: byte list)) + 35 + int (length (Data ?m)) - uint (Length ?m + 35))\<rparr>)"
    using gotoPreviousEntry_at [of ?r "[]" ?m "[]"] l
    by (simp add: z) (simp add: newMessage_def)
  then show ?thesis
    by (simp add: w z) (simp add: newMessage_def)
qed


text \<open>
  Claim C8, amended.  Every entry that \<open>readEntry\<close> returns has \<open>Crc32\<close> equal to the
  CRC-32C of its \<open>Data\<close>; the length of its \<open>Data\<close> is the length field stored in front of
  the data, while its \<open>Length\<close> is the copy stored at the end of the record, which nothing
  compares with the first.  And when the stream holds, at the reader's offset, a complete
  record with a timestamp that decodes, whose stored checksum differs from the CRC-32C of
  the stored data, \<open>readEntry\<close> fails with \<open>ErrCrc32Mismatch\<close>.
\<close>

theorem readEntry_checked:
  "(readEntry r = (Inr m, r') \<longrightarrow>
      Crc32 m = Checksum (Data m) \<and>
      length (Data m) = unat (le32_dec (take 4 (drop (s_pos r + 8) (s_buf r)))) \<and>
      Length m = le32_dec (take 4 (drop (s_pos r + 31 + length (Data m)) (s_buf r)))) \<and>
   (s_buf r = pre @ le64 i @ le32 l @ d @ tb @ le32 c @ le32 l' @ post \<and> s_pos r = length pre \<and>
    length d = unat l \<and> length tb = 15 \<and> UnmarshalBinary tb = Inr t \<and> c \<noteq> Checksum d \<longrightarrow>
      fst (readEntry r) = Inl ErrCrc32Mismatch)"
  using readEntry_Inr [of r m r'] readEntry_mismatch [of r pre i l d tb c l' post t]
  by blast

theorem readEntry_checked_witness:
  "(readEntry \<lparr>s_buf = entry_bytes (newMessage 0 [] zeroTime), s_pos = 0\<rparr>
       = (Inr (newMessage 0 [] zeroTime), \<lparr>s_buf = entry_bytes (newMessage 0 [] zeroTime), s_pos = 35\<rparr>) \<and>
     Crc32 (newMessage 0 [] zeroTime) = Checksum (Data (newMessage 0 [] zeroTime))) \<and>
   (s_buf \<lparr>s_buf = le64 0 @ le32 0 @ [] @ time_bytes zeroTime @ le32 1 @ le32 0 @ [], s_pos = 0\<rparr>
       = [] @ le64 0 @ le32 0 @ [] @ time_bytes zeroTime @ le32 1 @ le32 0 @ [] \<and>
     UnmarshalBinary (time_bytes zeroTime) = Inr zeroTime \<and> (1 :: uint32) \<noteq> Checksum [] \<and>
     fst (readEntry \<lparr>s_buf = le64 0 @ le32 0 @ [] @ time_bytes zeroTime @ le32 1 @ le32 0 @ [], s_pos = 0\<rparr>)
       = Inl ErrCrc32Mismatch)"
proof -
  let ?m = "newMessage 0 [] zeroTime"
  let ?r = "\<lparr>s_buf = entry_bytes ?m, s_pos = 0\<rparr>"
  let ?r' = "\<lparr>s_buf = entry_bytes ?m, s_pos = 35\<rparr>"
  let ?q = "\<lparr>s_buf = le64 0 @ le32 0 @ [] @ time_bytes zeroTime @ le32 1 @ le32 0 @ [], s_pos = 0\<rparr>"
  have h1: "readEntry ?r = (Inr ?m, ?r')"
    using readEntry_at [of ?r "[]" ?m "[]"]
    by (simp add: stored_id newMessage_def zeroTime_def)
  have u: "UnmarshalBinary (time_bytes zeroTime) = Inr zeroTime"
    by (simp add: In_UTC_id zeroTime_def)
  have c: "(1 :: uint32) \<noteq> Checksum []"
    by (simp add: Checksum_def crc_update_def)
  have h2: "s_buf ?q = [] @ le64 0 @ le32 0 @ [] @ time_bytes zeroTime @ le32 1 @ le32 0 @ [] \<and> s_pos ?q = length ([] :: byte list) \<and>
    length ([] :: byte list) = unat (0 :: uint32) \<and> length (time_bytes zeroTime) = 15 \<and>
    UnmarshalBinary (time_bytes zeroTime) = Inr zeroTime \<and> (1 :: uint32) \<noteq> Checksum []"
    using u c by simp
  have a: "Crc32 ?m = Checksum (Data ?m)"
    using readEntry_checked [of ?r ?m ?r'] h1 by blast
  have b: "fst (readEntry ?q) = Inl ErrCrc32Mismatch"
    using readEntry_checked [of ?q _ _ "[]" 0 0 "[]" "time_bytes zeroTime" 1 0 "[]" zeroTime] h2 by blast
  show ?thesis
    using h1 a b u c by simp
qed

text \<open>
  The claim as stated fails: a record whose two length fields differ (0 in front of the
  data, 5 at the end) and whose checksum is right is returned, with \<open>Length = 5\<close> and no
  data.
\<close>

theorem readEntry_length_counterexample:
  "fst (readEntry \<lparr>s_buf = [0, 0, 0, 0, 0, 0, 0, 0,  0, 0, 0, 0,
                           1, 0, 0, 0, 0, 0, 0, 0, 0, 0, 0, 0, 0, 255, 255,
                           0, 0, 0, 0,  5, 0, 0, 0], s_pos = 0\<rparr>)
     = Inr \<lparr>Index = 0, Length = 5, Data = [], Timestamp = zeroTime, Crc32 = 0\<rparr>
   \<and> length (Data \<lparr>Index = 0, Length = 5, Data = [], Timestamp = zeroTime, Crc32 = 0\<rparr>)
       \<noteq> unat (Length \<lparr>Index = 0, Length = 5, Data = [], Timestamp = zeroTime, Crc32 = 0\<rparr>)"
  by code_simp


text \<open>
  The two options refuse each other, in either order, whenever the index is not 0 and the
  timestamp is not the zero time: each recognises that the other was set by comparing the
  other's field with its zero value.
\<close>

theorem both_options_rejected:
  assumes "i \<noteq> 0" and "\<not> IsZero t"
  shows "Wal_Reader wal fs [WithIndex i, WithTimestamp t] = Inl ErrIndexAndTimestampSet \<and>
         Wal_Reader wal fs [WithTimestamp t, WithIndex i] = Inl ErrIndexAndTimestampSet"
  using apply_options_both [OF assms] by (simp add: Wal_Reader_def)

theorem both_options_rejected_witness:
  "(7 :: uint64) \<noteq> 0 \<and> \<not> IsZero (example_time 1) \<and>
   Wal_Reader example_wal1 example_fs1 [WithIndex 7, WithTimestamp (example_time 1)]
     = Inl ErrIndexAndTimestampSet \<and>
   Wal_Reader example_wal1 example_fs1 [WithTimestamp (example_time 1), WithIndex 7]
     = Inl ErrIndexAndTimestampSet"
proof -
  have h1: "(7 :: uint64) \<noteq> 0" by simp
  have h2: "\<not> IsZero (example_time 1)" by (simp add: IsZero_def example_time_def)
  from both_options_rejected [OF h1 h2, of example_wal1 example_fs1] h1 h2 show ?thesis
    by blast
qed

text \<open>
  Claim C9, at inputs where the code departs from it.  The documentation of \<open>WithIndex\<close> and
  \<open>WithTimestamp\<close> says that each fails when the other is also set, but an index of 0 and
  the zero time are not seen as set.  On the log that \<open>New\<close> creates and one append fills,
  \<open>WithIndex 0\<close> followed by \<open>WithTimestamp\<close>, and \<open>WithTimestamp\<close> of the zero time followed
  by \<open>WithIndex 7\<close>, are both accepted, while the same two pairs are refused with
  \<open>ErrIndexAndTimestampSet\<close> when the options come in the other order.
\<close>

theorem both_options_accepted:
  "New example_Encode [] ''/d'' [WithMaxSegmentSize 1] = (Inr example_wal0, example_fs0) \<and>
   Write (example_time 1) example_wal0 example_fs0 [] = (None, example_wal1, example_fs1, []) \<and>
   Wal_Reader example_wal1 example_fs1 [WithIndex 0, WithTimestamp (example_time 1)]
     \<noteq> Inl ErrIndexAndTimestampSet \<and>
   Wal_Reader example_wal1 example_fs1 [WithTimestamp (example_time 1), WithIndex 0]
     = Inl ErrIndexAndTimestampSet \<and>
   Wal_Reader example_wal1 example_fs1 [WithTimestamp zeroTime, WithIndex 7]
     \<noteq> Inl ErrIndexAndTimestampSet \<and>
   Wal_Reader example_wal1 example_fs1 [WithIndex 7, WithTimestamp zeroTime]
     = Inl ErrIndexAndTimestampSet"
proof -
  have "Wal_Reader example_wal1 example_fs1 [WithIndex 0, WithTimestamp (example_time 1)]
     \<noteq> Inl ErrIndexAndTimestampSet"
    by code_simp
  moreover have "Wal_Reader example_wal1 example_fs1 [WithTimestamp zeroTime, WithIndex 7]
     \<noteq> Inl ErrIndexAndTimestampSet"
    by code_simp
  moreover have "Wal_Reader example_wal1 example_fs1 [WithTimestamp (example_time 1), WithIndex 0]
     = Inl ErrIndexAndTimestampSet"
    by code_simp
  moreover have "Wal_Reader example_wal1 example_fs1 [WithIndex 7, WithTimestamp zeroTime]
     = Inl ErrIndexAndTimestampSet"
    by code_simp
  ultimately show ?thesis
    using example_New example_Write by simp
qed

text \<open>
  \<open>Load\<close> without segments.  When the directory exists, its \<open>config.json\<close> is a file that decodes, and none
  of the paths that \<open>filepath.Glob\<close> returns for the pattern \<open>dir/*\<close> is a regular file with the
  extension \<open>.wal\<close> (for a directory path without pattern characters: no such file is
  directly in the directory), \<open>Load\<close> does not return an error such as
  \<open>ErrNoSegmentsFound\<close>: it selects the last element of the empty segment list, which is the
  run-time panic for an index out of range.
\<close>

theorem Load_without_segments_panics:
  assumes "map_of fs dir = Some Directory"
    and "map_of fs (Join dir ''config.json'') = Some (File bs)"
    and "json_Decode bs = Some cfg"
    and "Glob fs (Join dir ''*'') = Inr ps"
    and "\<forall>p \<in> set ps. map_of fs p \<noteq> None
           \<and> (\<forall>c. map_of fs p = Some (File c) \<longrightarrow> Ext (Base p) \<noteq> ''.wal'')"
  shows "Load json_Decode Glob fs dir = Inl PanicIndexOutOfRange"
proof -
  have "load_segments fs (sort ps) = Inr []"
    using assms(5) by (intro load_segments_none) auto
  then show ?thesis
    using assms(1-4) by (simp add: Load_def Lstat_def IsDir_def)
qed

theorem Load_without_segments_panics_witness:
  "map_of [(''/d'', Directory), (''/d/config.json'', File (replicate 32 0))] ''/d'' = Some Directory \<and>
   map_of [(''/d'', Directory), (''/d/config.json'', File (replicate 32 0))] (Join ''/d'' ''config.json'')
     = Some (File (replicate 32 0)) \<and>
   example_Decode (replicate 32 0)
     = Some \<lparr>MaxSegmentSize = 0, MaxSegmentCount = 0, ExpirationTime = 0, ExpirationInterval = 0\<rparr> \<and>
   example_Glob [(''/d'', Directory), (''/d/config.json'', File (replicate 32 0))] (Join ''/d'' ''*'')
     = Inr [''/d/config.json''] \<and>
   Ext (Base ''/d/config.json'') = ''.json'' \<and>
   Load example_Decode example_Glob [(''/d'', Directory), (''/d/config.json'', File (replicate 32 0))] ''/d''
     = Inl PanicIndexOutOfRange"
proof -
  let ?fs = "[(''/d'', Directory), (''/d/config.json'', File (replicate 32 0))]"
  have h1: "map_of ?fs ''/d'' = Some Directory" by simp
  have h2: "map_of ?fs (Join ''/d'' ''config.json'') = Some (File (replicate 32 0))"
    by (simp add: Join_def)
  have h3: "example_Decode (replicate 32 0)
     = Some \<lparr>MaxSegmentSize = 0, MaxSegmentCount = 0, ExpirationTime = 0, ExpirationInterval = 0\<rparr>"
    by code_simp
  have g: "example_Glob ?fs (Join ''/d'' ''*'') = Inr [''/d/config.json'']"
    by code_simp
  have e: "Ext (Base ''/d/config.json'') = ''.json''"
    by code_simp
  have h4: "\<forall>p \<in> set [''/d/config.json'']. map_of ?fs p \<noteq> None
      \<and> (\<forall>c. map_of ?fs p = Some (File c) \<longrightarrow> Ext (Base p) \<noteq> ''.wal'')"
    by (simp add: e)
  from Load_without_segments_panics [where json_Decode = example_Decode and Glob = example_Glob, OF h1 h2 h3 g h4] h1 h2 h3 g e
  show ?thesis
    by blast
qed

text \<open>
  Claim C10, at an input where the code departs from it.  The theorem above speaks of what
  \<open>Glob\<close> returns, not of the directory's own entries: \<open>Load\<close> takes the directory path
  literally for \<open>Lstat\<close> and for \<open>config.json\<close>, but hands it to \<open>filepath.Glob\<close>, where a \<open>*\<close>
  is pattern syntax.  Here the directory \<open>/d*\<close> holds a \<open>config.json\<close> that decodes and no file
  with the extension \<open>.wal\<close>, but the pattern \<open>/d*/*\<close> also matches the segment file of the log
  next to it, \<open>/dx\<close>; \<open>Load\<close> of \<open>/d*\<close> takes it for a segment of its own and returns a log
  instead of the panic.
\<close>

theorem Load_pattern_directory:
  "example_Glob
     [(''/d*'', Directory), (''/d*/config.json'', File (replicate 32 0)), (''/dx'', Directory),
      (''/dx/00000000000000000000.wal'', File [])] (Join ''/d*'' ''*'')
     = Inr [''/d*/config.json'', ''/dx/00000000000000000000.wal''] \<and>
   Load example_Decode example_Glob
     [(''/d*'', Directory), (''/d*/config.json'', File (replicate 32 0)), (''/dx'', Directory),
      (''/dx/00000000000000000000.wal'', File [])] ''/d*''
     = Inr \<lparr>wal_path = ''/d*'', current = Some 0,
            segments = [\<lparr>firstIndex = 0, lastIndex = 0, firstTimestamp = zeroTime,
                         lastTimestamp = zeroTime, path = ''/dx/00000000000000000000.wal'',
                         fhandle = Some \<lparr>h_path = ''/dx/00000000000000000000.wal'', h_pos = 0\<rparr>,
                         fileLength = 0\<rparr>],
            config = \<lparr>MaxSegmentSize = 0, MaxSegmentCount = 0, ExpirationTime = 0,
                      ExpirationInterval = 0\<rparr>,
            index = 0\<rparr>"
  by code_simp

end
